theory Spec2Isabelle
  imports Complex_Main "HOL-Library.Word"
begin

unbundle bit_operations_syntax

section \<open>Machine model\<close>

text \<open>
  The kernel is built for 32-bit x86 (the page-table code stores page-table entries and
  physical addresses in \<open>unsigned long\<close> and loads them into \<open>cr3\<close>), so both
  \<open>unsigned int\<close> and \<open>unsigned long\<close> are 32-bit words whose arithmetic wraps, and
  \<open>unsigned char\<close> is an 8-bit word. Physical memory is a flat array of bytes. Pool
  objects live at addresses of their own (named by natural numbers); \<open>nullptr\<close> is
  \<open>None\<close>.
\<close>

type_synonym u8 = "8 word"
type_synonym u32 = "32 word"
type_synonym memory = "u32 \<Rightarrow> u8"
type_synonym pool_ptr = nat

text \<open>The enumeration \<open>FrameState\<close> of \<open>cont_frame_pool.H\<close>.\<close>

datatype FrameState = Free | Used | HoS

text \<open>
  Modelled from the spec: the constant \<open>FRAME_SIZE\<close> is declared in
  \<open>cont_frame_pool.H\<close>, which is not among the sources; the spec fixes
  \<open>frame_size = 4096\<close>.
\<close>

definition FRAME_SIZE :: u32 where
  "FRAME_SIZE = 4096"

text \<open>
  The data members of class \<open>ContFramePool\<close>; \<open>bitmap\<close> is the address held by the
  \<open>unsigned char *\<close>. (\<open>prev\<close> and \<open>next\<close> carry a suffix: \<open>next\<close> is a keyword.)
\<close>

record ContFramePool =
  base_frame_no :: u32
  nframes :: u32
  info_frame_no :: u32
  bitmap :: u32
  prev_pool :: "pool_ptr option"
  next_pool :: "pool_ptr option"

text \<open>
  The state of the kernel that the allocator reads and writes: the static member
  \<open>ContFramePool::head\<close>, the pool objects, physical memory and the lines written to
  the console.
\<close>

record kernel =
  head :: "pool_ptr option"
  pools :: "pool_ptr \<Rightarrow> ContFramePool"
  mem :: memory
  console :: "string list"

section \<open>The frame-state bitmap\<close>

text \<open>
  \<open>get_state\<close>: the \<open>switch\<close> returns for the values 0, 1 and 2; any other value
  falls through to the final \<open>return FrameState::Free\<close>.
\<close>

definition get_state :: "ContFramePool \<Rightarrow> memory \<Rightarrow> u32 \<Rightarrow> FrameState" where
  "get_state p m frame_no =
    (let bitmap_index = frame_no div 4;
         shift = unat (2 * (frame_no mod 4));
         current_state = drop_bit shift (m (bitmap p + bitmap_index)) AND 3
     in if current_state = 0 then Free
        else if current_state = 1 then Used
        else if current_state = 2 then HoS
        else Free)"

definition set_state :: "ContFramePool \<Rightarrow> memory \<Rightarrow> u32 \<Rightarrow> FrameState \<Rightarrow> memory" where
  "set_state p m frame_no st =
    (let bitmap_index = frame_no div 4;
         shift = unat (2 * (frame_no mod 4));
         reset_mask = NOT (push_bit shift 3);
         a = bitmap p + bitmap_index;
         m1 = m(a := m a AND reset_mask)
     in case st of
          Free \<Rightarrow> m1
        | Used \<Rightarrow> m1(a := m1 a OR push_bit shift 1)
        | HoS \<Rightarrow> m1(a := m1 a OR push_bit shift 2))"

section \<open>Operations of one pool\<close>

text \<open>\<open>mark_inaccessible\<close>: the first frame, then the \<open>for\<close> loop from \<open>i = 1\<close>.\<close>

function mark_loop :: "ContFramePool \<Rightarrow> memory \<Rightarrow> u32 \<Rightarrow> u32 \<Rightarrow> u32 \<Rightarrow> memory" where
  "mark_loop p m b n i =
    (if i < n then mark_loop p (set_state p m (b + i) Used) b n (i + 1) else m)"
  by pat_completeness auto
termination
proof (relation "measure (\<lambda>(p, m, b, n, i). unat n - unat i)")
  fix p :: ContFramePool and m :: memory and b n i :: u32
  assume "i < n"
  then have "unat i < unat n" by (simp add: word_less_nat_alt)
  moreover have "unat n < 2 ^ 32" using unsigned_less[of n] by simp
  ultimately have "unat i + 1 < 2 ^ 32" by arith
  then have "unat (i + 1) = unat i + 1" by (simp add: unat_word_ariths)
  with \<open>unat i < unat n\<close>
  show "((p, set_state p m (b + i) Used, b, n, i + 1), (p, m, b, n, i))
          \<in> measure (\<lambda>(p, m, b, n, i). unat n - unat i)"
    by simp
qed simp

declare mark_loop.simps [simp del]

definition mark_inaccessible :: "ContFramePool \<Rightarrow> memory \<Rightarrow> u32 \<Rightarrow> u32 \<Rightarrow> memory" where
  "mark_inaccessible p m b n = mark_loop p (set_state p m b HoS) b n 1"

text \<open>
  \<open>get_frames\<close>. The inner \<open>for\<close> loop over a candidate window returns the offset of the
  first frame that is not \<open>Free\<close>, or \<open>None\<close> when it runs to the end with \<open>found\<close>
  still true. The outer \<open>while\<close> loop is not known to end for every pool and request, so
  it is a partial function: \<open>None\<close> is a call that does not return. The result pairs the
  returned frame number with the memory after the call.
\<close>

function scan_window :: "ContFramePool \<Rightarrow> memory \<Rightarrow> u32 \<Rightarrow> u32 \<Rightarrow> u32 \<Rightarrow> u32 option" where
  "scan_window p m start n i =
    (if i < n
     then (if get_state p m (start + i) \<noteq> Free then Some i
           else scan_window p m start n (i + 1))
     else None)"
  by pat_completeness auto
termination
proof (relation "measure (\<lambda>(p, m, start, n, i). unat n - unat i)")
  fix p :: ContFramePool and m :: memory and start n i :: u32
  assume "i < n"
  then have "unat i < unat n" by (simp add: word_less_nat_alt)
  moreover have "unat n < 2 ^ 32" using unsigned_less[of n] by simp
  ultimately have "unat i + 1 < 2 ^ 32" by arith
  then have "unat (i + 1) = unat i + 1" by (simp add: unat_word_ariths)
  with \<open>unat i < unat n\<close>
  show "((p, m, start, n, i + 1), (p, m, start, n, i))
          \<in> measure (\<lambda>(p, m, start, n, i). unat n - unat i)"
    by simp
qed simp

declare scan_window.simps [simp del]

partial_function (option) get_frames_loop ::
  "ContFramePool \<Rightarrow> memory \<Rightarrow> u32 \<Rightarrow> u32 \<Rightarrow> (u32 \<times> memory) option" where
  "get_frames_loop p m n start_frame =
    (if start_frame + n - 1 < nframes p
     then (case scan_window p m start_frame n 0 of
             Some i \<Rightarrow> get_frames_loop p m n (start_frame + i + 1)
           | None \<Rightarrow> Some (start_frame + base_frame_no p,
                           mark_inaccessible p m start_frame n))
     else Some (0, m))"

declare get_frames_loop.simps [code]

definition get_frames :: "ContFramePool \<Rightarrow> memory \<Rightarrow> u32 \<Rightarrow> (u32 \<times> memory) option" where
  "get_frames p m n = get_frames_loop p m n 0"

text \<open>\<open>needed_info_frames\<close>, in \<open>unsigned int\<close> arithmetic.\<close>

definition needed_info_frames :: "u32 \<Rightarrow> u32" where
  "needed_info_frames n =
    (let bits_required = n * 2;
         info_frames = (bits_required + (FRAME_SIZE * 8) - 1) div (FRAME_SIZE * 8)
     in info_frames)"

section \<open>Releasing frames\<close>

text \<open>
  The inner \<open>while\<close> loop of \<open>release_frames\<close>, which frees the \<open>Used\<close> frames that
  follow the head.
\<close>

function release_loop :: "ContFramePool \<Rightarrow> memory \<Rightarrow> u32 \<Rightarrow> memory" where
  "release_loop p m fno =
    (if fno < nframes p \<and> get_state p m fno = Used
     then release_loop p (set_state p m fno Free) (fno + 1)
     else m)"
  by pat_completeness auto
termination
proof (relation "measure (\<lambda>(p, m, fno). unat (nframes p) - unat fno)")
  fix p :: ContFramePool and m :: memory and fno :: u32
  assume "fno < nframes p \<and> get_state p m fno = Used"
  then have l: "unat fno < unat (nframes p)" by (simp add: word_less_nat_alt)
  moreover have "unat (nframes p) < 2 ^ 32" using unsigned_less[of "nframes p"] by simp
  ultimately have "unat fno + 1 < 2 ^ 32" by arith
  then have "unat (fno + 1) = unat fno + 1" by (simp add: unat_word_ariths)
  with l
  show "((p, set_state p m fno Free, fno + 1), (p, m, fno))
          \<in> measure (\<lambda>(p, m, fno). unat (nframes p) - unat fno)"
    by simp
qed simp

declare release_loop.simps [simp del]

text \<open>
  The body that \<open>release_frames\<close> runs on the pool \<open>tmp\<close> it has found, for the
  relative frame number \<open>rel_frame_no\<close>: free the run when the frame is a head of
  sequence, write the diagnostic otherwise.
\<close>

definition release_in_pool :: "ContFramePool \<Rightarrow> u32 \<Rightarrow> kernel \<Rightarrow> kernel" where
  "release_in_pool tmp rel_frame_no s =
    (if get_state tmp (mem s) rel_frame_no = HoS
     then s\<lparr>mem := release_loop tmp (set_state tmp (mem s) rel_frame_no Free)
                     (rel_frame_no + 1)\<rparr>
     else s\<lparr>console := console s @
             [''First Frame requested to release is not a Head of Sequence'' @ [CHR 0x0A]]\<rparr>)"

text \<open>
  The walk of \<open>release_frames\<close> along the \<open>next\<close> pointers. On a heap whose pointers
  form a cycle it need not end, so it is a partial function.
\<close>

partial_function (option) release_walk ::
  "kernel \<Rightarrow> u32 \<Rightarrow> pool_ptr option \<Rightarrow> kernel option" where
  "release_walk s first_frame_no tmp =
    (case tmp of
       None \<Rightarrow> Some s
     | Some t \<Rightarrow>
         if base_frame_no (pools s t) \<le> first_frame_no
         then (if first_frame_no \<le> base_frame_no (pools s t) + nframes (pools s t) - 1
               then Some (release_in_pool (pools s t)
                            (first_frame_no - base_frame_no (pools s t)) s)
               else release_walk s first_frame_no (next_pool (pools s t)))
         else Some s)"

declare release_walk.simps [code]

definition release_frames :: "u32 \<Rightarrow> kernel \<Rightarrow> kernel option" where
  "release_frames first_frame_no s = release_walk s first_frame_no (head s)"

section \<open>Construction\<close>

text \<open>An assignment to data members of the pool object at address \<open>a\<close>.\<close>

definition upd_pool :: "pool_ptr \<Rightarrow> (ContFramePool \<Rightarrow> ContFramePool) \<Rightarrow> kernel \<Rightarrow> kernel" where
  "upd_pool a f s = s\<lparr>pools := (pools s)(a := f (pools s a))\<rparr>"

text \<open>
  The search loop of the constructor:
  \<open>while (tmp->base_frame_no < base_frame_no && tmp->next) tmp = tmp->next\<close>.
\<close>

partial_function (option) find_position ::
  "(pool_ptr \<Rightarrow> ContFramePool) \<Rightarrow> u32 \<Rightarrow> pool_ptr \<Rightarrow> pool_ptr option" where
  "find_position ps b tmp =
    (if base_frame_no (ps tmp) < b
     then (case next_pool (ps tmp) of
             Some nx \<Rightarrow> find_position ps b nx
           | None \<Rightarrow> Some tmp)
     else Some tmp)"

declare find_position.simps [code]

text \<open>
  Linking \<open>this\<close> into the registry, statement by statement; each statement reads the
  heap its predecessors have left.
\<close>

definition insert_after :: "pool_ptr \<Rightarrow> pool_ptr \<Rightarrow> kernel \<Rightarrow> kernel" where
  "insert_after this tmp s =
    (let s1 = upd_pool this (\<lambda>c. c\<lparr>prev_pool := Some tmp\<rparr>) s;
         s2 = upd_pool this (\<lambda>c. c\<lparr>next_pool := next_pool (pools s1 tmp)\<rparr>) s1;
         s3 = (case next_pool (pools s2 tmp) of
                 Some nx \<Rightarrow> upd_pool nx (\<lambda>c. c\<lparr>prev_pool := Some this\<rparr>) s2
               | None \<Rightarrow> s2)
     in upd_pool tmp (\<lambda>c. c\<lparr>next_pool := Some this\<rparr>) s3)"

definition insert_before :: "pool_ptr \<Rightarrow> pool_ptr \<Rightarrow> kernel \<Rightarrow> kernel" where
  "insert_before this tmp s =
    (let s1 = upd_pool this (\<lambda>c. c\<lparr>next_pool := Some tmp\<rparr>) s
     in case prev_pool (pools s1 tmp) of
          Some pv \<Rightarrow>
            (let s2 = upd_pool this (\<lambda>c. c\<lparr>prev_pool := Some pv\<rparr>) s1;
                 s3 = (case prev_pool (pools s2 tmp) of
                         Some pv' \<Rightarrow> upd_pool pv' (\<lambda>c. c\<lparr>next_pool := Some this\<rparr>) s2
                       | None \<Rightarrow> s2)
             in upd_pool tmp (\<lambda>c. c\<lparr>prev_pool := Some this\<rparr>) s3)
        | None \<Rightarrow>
            (upd_pool tmp (\<lambda>c. c\<lparr>prev_pool := Some this\<rparr>) s1)\<lparr>head := Some this\<rparr>)"

definition insert_pool :: "pool_ptr \<Rightarrow> kernel \<Rightarrow> kernel option" where
  "insert_pool this s =
    (case head s of
       None \<Rightarrow> Some (s\<lparr>head := Some this\<rparr>)
     | Some h \<Rightarrow>
         (case find_position (pools s) (base_frame_no (pools s this)) h of
            None \<Rightarrow> None
          | Some tmp \<Rightarrow>
              if base_frame_no (pools s tmp) < base_frame_no (pools s this)
              then Some (insert_after this tmp s)
              else Some (insert_before this tmp s)))"

text \<open>
  The loop that marks every frame \<open>Free\<close>. Its counter is an \<open>int\<close> compared with an
  \<open>unsigned long\<close>, hence converted to unsigned; it runs from 0 to at most 16384, where
  the two readings agree.
\<close>

function init_bitmap :: "ContFramePool \<Rightarrow> memory \<Rightarrow> u32 \<Rightarrow> u32 \<Rightarrow> memory" where
  "init_bitmap p m n fno =
    (if fno < n then init_bitmap p (set_state p m fno Free) n (fno + 1) else m)"
  by pat_completeness auto
termination
proof (relation "measure (\<lambda>(p, m, n, fno). unat n - unat fno)")
  fix p :: ContFramePool and m :: memory and n fno :: u32
  assume "fno < n"
  then have l: "unat fno < unat n" by (simp add: word_less_nat_alt)
  moreover have "unat n < 2 ^ 32" using unsigned_less[of n] by simp
  ultimately have "unat fno + 1 < 2 ^ 32" by arith
  then have "unat (fno + 1) = unat fno + 1" by (simp add: unat_word_ariths)
  with l
  show "((p, set_state p m fno Free, n, fno + 1), (p, m, n, fno))
          \<in> measure (\<lambda>(p, m, n, fno). unat n - unat fno)"
    by simp
qed simp

declare init_bitmap.simps [simp del]

text \<open>
  The constructor, for the object at address \<open>this\<close>. A failed \<open>assert\<close> halts the
  kernel, so the constructor does not return: \<open>None\<close>, as for a search loop that
  does not end.
\<close>

definition ContFramePool_ctor ::
  "pool_ptr \<Rightarrow> u32 \<Rightarrow> u32 \<Rightarrow> u32 \<Rightarrow> kernel \<Rightarrow> kernel option" where
  "ContFramePool_ctor this b n info s =
    (if \<not> n \<le> FRAME_SIZE * 8 div 2 then None
     else if needed_info_frames n \<noteq> 1 then None
     else
       (let s0 = upd_pool this
                   (\<lambda>c. c\<lparr>base_frame_no := b, nframes := n, info_frame_no := info,
                          prev_pool := None, next_pool := None\<rparr>) s
        in case insert_pool this s0 of
             None \<Rightarrow> None
           | Some s1 \<Rightarrow>
               (let s2 = upd_pool this
                           (\<lambda>c. c\<lparr>bitmap :=
                                    (if info_frame_no c = 0
                                     then base_frame_no c * FRAME_SIZE
                                     else info_frame_no c * FRAME_SIZE)\<rparr>) s1;
                    p = pools s2 this;
                    m1 = init_bitmap p (mem s2) n 0;
                    m2 = (if info = 0 then set_state p m1 0 HoS else m1)
                in Some (s2\<lparr>mem := m2,
                            console := console s2 @ [''Frame Pool initialized'' @ [CHR 0x0A]]\<rparr>))))"

section \<open>Notions used in the statements\<close>

subsection \<open>Frames and their states\<close>

text \<open>The local variable \<open>current_state\<close> of \<open>get_state\<close>: the two-bit field of a frame.\<close>

definition current_state :: "ContFramePool \<Rightarrow> memory \<Rightarrow> u32 \<Rightarrow> u8" where
  "current_state p m frame_no =
     drop_bit (unat (2 * (frame_no mod 4))) (m (bitmap p + frame_no div 4)) AND 3"

text \<open>
  Reading and overwriting a two-bit field of one byte, and the encoding of a state; the
  bitmap operations are compositions of these.
\<close>

definition field2 :: "nat \<Rightarrow> u8 \<Rightarrow> u8" where
  "field2 sh b = drop_bit sh b AND 3"

definition put2 :: "nat \<Rightarrow> u8 \<Rightarrow> u8 \<Rightarrow> u8" where
  "put2 sh v b = (b AND NOT (push_bit sh 3)) OR push_bit sh v"

definition enc :: "FrameState \<Rightarrow> u8" where
  "enc s = (case s of Free \<Rightarrow> 0 | Used \<Rightarrow> 1 | HoS \<Rightarrow> 2)"

text \<open>The state the reader reports for the \<open>k\<close>-th frame of a pool.\<close>

definition frame_state :: "ContFramePool \<Rightarrow> memory \<Rightarrow> nat \<Rightarrow> FrameState" where
  "frame_state p m k = get_state p m (of_nat k)"

text \<open>A pool object that has passed the two assertions of the constructor.\<close>

definition valid_pool :: "ContFramePool \<Rightarrow> bool" where
  "valid_pool p \<longleftrightarrow>
     nframes p \<le> FRAME_SIZE * 8 div 2 \<and> needed_info_frames (nframes p) = 1"

text \<open>
  A window of \<open>n\<close> consecutive frames inside the pool, from relative index \<open>s\<close>, that all
  read \<open>Free\<close>.
\<close>

definition free_window :: "ContFramePool \<Rightarrow> memory \<Rightarrow> nat \<Rightarrow> nat \<Rightarrow> bool" where
  "free_window p m s n \<longleftrightarrow>
     s + n \<le> unat (nframes p) \<and> list_all (\<lambda>i. frame_state p m (s + i) = Free) [0..<n]"

text \<open>
  Frame \<open>j\<close> continues the run that starts at frame \<open>k\<close>: it lies after \<open>k\<close> inside the
  pool and every frame from \<open>k + 1\<close> to \<open>j\<close> reads \<open>Used\<close>.
\<close>

definition in_run :: "ContFramePool \<Rightarrow> memory \<Rightarrow> nat \<Rightarrow> nat \<Rightarrow> bool" where
  "in_run p m k j \<longleftrightarrow>
     k < j \<and> j < unat (nframes p) \<and> list_all (\<lambda>i. frame_state p m i = Used) [k + 1..<j + 1]"

text \<open>The diagnostic line of \<open>release_frames\<close>.\<close>

definition not_a_head :: string where
  "not_a_head = ''First Frame requested to release is not a Head of Sequence'' @ [CHR 0x0A]"

text \<open>
  The frame numbers a pool covers, and those covered by the arguments of a constructor
  call; the bytes of memory that hold a pool's bitmap.
\<close>

definition frames_of :: "ContFramePool \<Rightarrow> nat set" where
  "frames_of p = {unat (base_frame_no p) ..< unat (base_frame_no p) + unat (nframes p)}"

definition arg_frames :: "pool_ptr \<times> u32 \<times> u32 \<Rightarrow> nat set" where
  "arg_frames c = (case c of (a, b, n) \<Rightarrow> {unat b ..< unat b + unat n})"

definition bitmap_bytes :: "ContFramePool \<Rightarrow> u32 set" where
  "bitmap_bytes p = (\<lambda>i. bitmap p + of_nat i) ` {..<(unat (nframes p) + 3) div 4}"

subsection \<open>The registry as a list\<close>

text \<open>
  The \<open>next\<close> pointers lead from \<open>x\<close> through the objects \<open>as\<close>, in this order, to
  \<open>y\<close>; the \<open>prev\<close> pointers of \<open>as\<close> lead back, the first one to \<open>q\<close>.
\<close>

fun path :: "(pool_ptr \<Rightarrow> pool_ptr option) \<Rightarrow> pool_ptr option \<Rightarrow> pool_ptr list
              \<Rightarrow> pool_ptr option \<Rightarrow> bool" where
  "path N x [] y \<longleftrightarrow> x = y"
| "path N x (a # as) y \<longleftrightarrow> x = Some a \<and> path N (N a) as y"

fun back_links :: "(pool_ptr \<Rightarrow> pool_ptr option) \<Rightarrow> pool_ptr option \<Rightarrow> pool_ptr list \<Rightarrow> bool" where
  "back_links R q [] \<longleftrightarrow> True"
| "back_links R q (a # as) \<longleftrightarrow> R a = q \<and> back_links R (Some a) as"

text \<open>
  A well-formed registry: \<open>ps\<close> is the list of pool objects from \<open>head\<close> to the null
  pointer, doubly linked, without repetition, in ascending order of \<open>base_frame_no\<close>,
  each having passed the constructor's assertions.
\<close>

definition registry :: "kernel \<Rightarrow> pool_ptr list \<Rightarrow> bool" where
  "registry s ps \<longleftrightarrow>
     path (\<lambda>a. next_pool (pools s a)) (head s) ps None \<and>
     back_links (\<lambda>a. prev_pool (pools s a)) None ps \<and>
     distinct ps \<and>
     sorted (map (\<lambda>a. base_frame_no (pools s a)) ps) \<and>
     list_all (\<lambda>a. valid_pool (pools s a)) ps"

text \<open>
  The states reached by constructing pools, one after the other and each at an address
  where no pool lives yet, starting with an empty registry; in between, memory and
  console may change in any way (as they do under \<open>get_frames\<close>, \<open>mark_inaccessible\<close>
  and \<open>release_frames\<close>). The list records the address, base frame and number of frames
  of each constructor call.
\<close>

inductive built :: "kernel \<Rightarrow> (pool_ptr \<times> u32 \<times> u32) list \<Rightarrow> bool" where
  boot: "head s = None \<Longrightarrow> built s []"
| construct: "built s cs \<Longrightarrow> this \<notin> fst ` set cs \<Longrightarrow>
     ContFramePool_ctor this b n info s = Some s' \<Longrightarrow> built s' ((this, b, n) # cs)"
| other: "built s cs \<Longrightarrow> head s' = head s \<Longrightarrow> pools s' = pools s \<Longrightarrow> built s' cs"

text \<open>
  The pool at which the walk of \<open>release_frames\<close> stops, read off the list of the
  registry: the first pool whose range test succeeds, as long as the bases do not exceed
  the frame number.
\<close>

fun route :: "(pool_ptr \<Rightarrow> ContFramePool) \<Rightarrow> u32 \<Rightarrow> pool_ptr list \<Rightarrow> pool_ptr option" where
  "route P f [] = None"
| "route P f (a # as) =
     (if base_frame_no (P a) \<le> f
      then (if f \<le> base_frame_no (P a) + nframes (P a) - 1 then Some a else route P f as)
      else None)"

text \<open>
  One step in the life of the pool at address \<open>a\<close>: an allocation from it, a marking
  inside it, the release of one of its frames other than its first, or any step that
  leaves the registry and the pool's bitmap bytes as they are.
\<close>

inductive pool_op :: "pool_ptr \<Rightarrow> kernel \<Rightarrow> kernel \<Rightarrow> bool" for a where
  get: "get_frames (pools s a) (mem s) n = Some (r, m') \<Longrightarrow> pool_op a s (s\<lparr>mem := m'\<rparr>)"
| mark: "unat b + unat n \<le> unat (nframes (pools s a)) \<Longrightarrow>
     pool_op a s (s\<lparr>mem := mark_inaccessible (pools s a) (mem s) b n\<rparr>)"
| release: "unat f \<in> frames_of (pools s a) \<Longrightarrow> f \<noteq> base_frame_no (pools s a) \<Longrightarrow>
     release_frames f s = Some s' \<Longrightarrow> pool_op a s s'"
| elsewhere: "head s' = head s \<Longrightarrow> pools s' = pools s \<Longrightarrow>
     (\<forall>x\<in>bitmap_bytes (pools s a). mem s' x = mem s x) \<Longrightarrow> pool_op a s s'"

text \<open>A call that returns.\<close>

definition returns :: "'a option \<Rightarrow> bool" where
  "returns x = (case x of None \<Rightarrow> False | Some y \<Rightarrow> True)"

subsection \<open>Example states\<close>

text \<open>
  A pool of eight frames at base frame 512 with its bitmap at the start of that frame,
  and two bitmaps for it: frames 0 and 2 allocated; every frame \<open>Used\<close>.
\<close>

definition small_pool :: ContFramePool where
  "small_pool = \<lparr>base_frame_no = 512, nframes = 8, info_frame_no = 0, bitmap = 0x200000,
                  prev_pool = None, next_pool = None\<rparr>"

definition gapped_bitmap :: memory where
  "gapped_bitmap = (\<lambda>_. 0)(0x200000 := 0x22)"

definition full_bitmap :: memory where
  "full_bitmap = (\<lambda>_. 0x55)"

text \<open>
  The kernel before any pool exists, and kernels with one pool: self-backed with eight
  frames or with a single frame, and with an external info frame.
\<close>

definition boot_kernel :: kernel where
  "boot_kernel = \<lparr>head = None,
     pools = (\<lambda>_. \<lparr>base_frame_no = 0, nframes = 0, info_frame_no = 0, bitmap = 0,
                      prev_pool = None, next_pool = None\<rparr>),
     mem = (\<lambda>_. 0), console = []\<rparr>"

definition self_backed_kernel :: kernel where
  "self_backed_kernel = the (ContFramePool_ctor 0 512 8 0 boot_kernel)"

definition single_frame_kernel :: kernel where
  "single_frame_kernel = the (ContFramePool_ctor 0 512 1 0 boot_kernel)"

definition external_kernel :: kernel where
  "external_kernel = the (ContFramePool_ctor 0 1024 8 600 boot_kernel)"

text \<open>
  Kernels with two pools: over disjoint ranges, over overlapping ranges, and with both
  bitmaps in info frame 600.
\<close>

definition disjoint_kernel :: kernel where
  "disjoint_kernel = the (ContFramePool_ctor 1 512 8 0 external_kernel)"

definition overlap_kernel :: kernel where
  "overlap_kernel = the (ContFramePool_ctor 1 1028 8 601 external_kernel)"

definition shared_kernel1 :: kernel where
  "shared_kernel1 = the (ContFramePool_ctor 0 512 8 600 boot_kernel)"

definition shared_kernel2 :: kernel where
  "shared_kernel2 = the (ContFramePool_ctor 1 1024 8 600 shared_kernel1)"

text \<open>States after calls on these kernels.\<close>

definition shared_kernel3 :: kernel where
  "shared_kernel3 = shared_kernel2\<lparr>mem :=
     snd (the (get_frames (pools shared_kernel2 0) (mem shared_kernel2) 1))\<rparr>"

definition shared_kernel4 :: kernel where
  "shared_kernel4 = the (release_frames 512 shared_kernel3)"

definition overlap_marked :: kernel where
  "overlap_marked = overlap_kernel\<lparr>mem :=
     mark_inaccessible (pools overlap_kernel 1) (mem overlap_kernel) 0 2\<rparr>"

definition overlap_released :: kernel where
  "overlap_released =
     the (release_frames (0 + base_frame_no (pools overlap_kernel 1)) overlap_marked)"

definition marked_kernel :: kernel where
  "marked_kernel = disjoint_kernel\<lparr>mem :=
     mark_inaccessible (pools disjoint_kernel 0) (mem disjoint_kernel) 2 3\<rparr>"

definition self_marked :: kernel where
  "self_marked = self_backed_kernel\<lparr>mem :=
     mark_inaccessible (pools self_backed_kernel 0) (mem self_backed_kernel) 2 3\<rparr>"

definition self_released :: kernel where
  "self_released = the (release_frames 514 self_marked)"

definition self_freed :: kernel where
  "self_freed = the (release_frames 512 self_backed_kernel)"

text \<open>
  Two adjacent runs in the pool at base 1024 of the disjoint registry: three frames from
  frame 1 and two frames from frame 4.
\<close>

definition run_kernel :: kernel where
  "run_kernel = disjoint_kernel\<lparr>mem :=
     mark_inaccessible (pools disjoint_kernel 0)
       (mark_inaccessible (pools disjoint_kernel 0) (mem disjoint_kernel) 1 3) 4 2\<rparr>"

text \<open>
  A pool of the overlapping registry after an allocation of three frames from it, and
  the state after the release of the frame that the allocation returned.
\<close>

definition overlap_allocated :: kernel where
  "overlap_allocated = overlap_kernel\<lparr>mem :=
     snd (the (get_frames (pools overlap_kernel 1) (mem overlap_kernel) 3))\<rparr>"

definition overlap_returned :: kernel where
  "overlap_returned =
     the (release_frames (0 + base_frame_no (pools overlap_allocated 1)) overlap_allocated)"

section \<open>The bitmap: reading back what was written\<close>

lemma bit3_int: "bit (3::int) n \<longleftrightarrow> n < 2"
proof -
  have e: "(3::int) = mask 2" by (simp add: mask_eq_exp_minus_1)
  have "bit (mask 2 :: int) n \<longleftrightarrow> n < 2" by (auto simp: bit_mask_iff)
  then show ?thesis by (simp only: e)
qed

lemma small_bit: "(v::u8) \<in> {0,1,2} \<Longrightarrow> bit v n \<Longrightarrow> n < 2"
  by (auto simp: bit_simps bit_1_iff)

lemma bit_put2:
  assumes "v \<in> {0,1,2}"
  shows "bit (put2 sh v b) i \<longleftrightarrow>
         (if sh \<le> i \<and> i < sh + 2 then bit v (i - sh) \<and> i < 8 else bit b i)"
proof (cases "i < 8")
  case False
  then have "\<not> bit (put2 sh v b) i" "\<not> bit b i"
    using bit_imp_le_length[of "put2 sh v b" i] bit_imp_le_length[of b i] by auto
  with False show ?thesis by auto
next
  case True
  have "bit (put2 sh v b) i \<longleftrightarrow>
        (bit b i \<and> \<not> (sh \<le> i \<and> i - sh < 2)) \<or> (sh \<le> i \<and> bit v (i - sh))"
    using True by (auto simp: put2_def bit_and_iff bit_or_iff bit_not_iff bit_push_bit_iff bit3_int)
  then show ?thesis
    using True small_bit[OF assms, of "i - sh"] by auto
qed

lemma bit_field2: "bit (field2 sh b) n \<longleftrightarrow> bit b (sh + n) \<and> n < 2"
  by (auto simp: field2_def bit_and_iff bit_drop_bit_eq bit3_int)

lemma field_same:
  assumes "v \<in> {0,1,2}" "sh \<le> 6"
  shows "field2 sh (put2 sh v b) = v"
proof (rule bit_word_eqI)
  fix n assume "n < LENGTH(8)"
  show "bit (field2 sh (put2 sh v b)) n = bit v n"
    using small_bit[OF assms(1), of n] assms(2)
    by (auto simp: bit_field2 bit_put2[OF assms(1)])
qed

lemma field_other:
  assumes "v \<in> {0,1,2}" "sh + 2 \<le> sh' \<or> sh' + 2 \<le> sh"
  shows "field2 sh' (put2 sh v b) = field2 sh' b"
proof (rule bit_word_eqI)
  fix n assume "n < LENGTH(8)"
  show "bit (field2 sh' (put2 sh v b)) n = bit (field2 sh' b) n"
    using assms(2) by (auto simp: bit_field2 bit_put2[OF assms(1)])
qed

lemma mod4_lt: "unat ((k::u32) mod 4) < 4"
  by (simp add: unat_mod)

lemma shift_unat: "unat (2 * ((k::u32) mod 4)) = 2 * unat (k mod 4)"
  using mod4_lt[of k] by (simp add: unat_word_ariths)

lemma split_idx: "(j::u32) div 4 = k div 4 \<Longrightarrow> j mod 4 = k mod 4 \<Longrightarrow> j = k"
  by (metis div_mult_mod_eq)

lemma enc_range: "enc s \<in> {0,1,2}"
  by (cases s) (simp_all add: enc_def)

lemma set_state_alt:
  "set_state p m k s = m(bitmap p + k div 4 :=
      put2 (unat (2 * (k mod 4))) (enc s) (m (bitmap p + k div 4)))"
  by (cases s) (simp_all add: set_state_def enc_def Let_def put2_def)

lemma get_state_alt:
  "get_state p m k = (let c = field2 (unat (2 * (k mod 4))) (m (bitmap p + k div 4))
     in if c = 1 then Used else if c = 2 then HoS else Free)"
  by (simp add: get_state_def Let_def field2_def)

lemma get_set_same: "get_state p (set_state p m k s) k = s"
proof -
  have "2 * unat (k mod 4) \<le> 6" using mod4_lt[of k] by arith
  from field_same[OF enc_range this]
  have f: "field2 (2 * unat (k mod 4)) (put2 (2 * unat (k mod 4)) (enc s) b) = enc s" for b .
  show ?thesis
    by (simp add: get_state_alt set_state_alt shift_unat f) (cases s; simp add: enc_def)
qed

lemma get_set_other:
  assumes "j \<noteq> k"
  shows "get_state p (set_state p m k s) j = get_state p m j"
proof (cases "j div 4 = k div 4")
  case False
  then show ?thesis by (simp add: get_state_alt set_state_alt)
next
  case True
  with assms have "j mod 4 \<noteq> k mod 4" using split_idx by blast
  then have "unat (j mod 4) \<noteq> unat (k mod 4)" by (simp add: word_unat_eq_iff)
  then have d: "2 * unat (k mod 4) + 2 \<le> 2 * unat (j mod 4)
                \<or> 2 * unat (j mod 4) + 2 \<le> 2 * unat (k mod 4)"
    by arith
  show ?thesis
    using True field_other[OF enc_range d]
    by (simp add: get_state_alt set_state_alt shift_unat)
qed

lemma current_state_alt:
  "current_state p m k = field2 (unat (2 * (k mod 4))) (m (bitmap p + k div 4))"
  by (simp add: current_state_def field2_def)

lemma get_state_field:
  "get_state p m k = (if current_state p m k = 1 then Used
                      else if current_state p m k = 2 then HoS else Free)"
  by (simp add: get_state_alt current_state_alt Let_def)

lemma field_set_same: "current_state p (set_state p m k s) k = enc s"
proof -
  have "2 * unat (k mod 4) \<le> 6" using mod4_lt[of k] by arith
  from field_same[OF enc_range this]
  have f: "field2 (2 * unat (k mod 4)) (put2 (2 * unat (k mod 4)) (enc s) b) = enc s" for b .
  show ?thesis
    by (simp add: current_state_alt set_state_alt shift_unat f)
qed

lemma field_set_other:
  assumes "j \<noteq> k"
  shows "current_state p (set_state p m k s) j = current_state p m j"
proof (cases "j div 4 = k div 4")
  case False
  then show ?thesis by (simp add: current_state_alt set_state_alt)
next
  case True
  with assms have "j mod 4 \<noteq> k mod 4" using split_idx by blast
  then have "unat (j mod 4) \<noteq> unat (k mod 4)" by (simp add: word_unat_eq_iff)
  then have d: "2 * unat (k mod 4) + 2 \<le> 2 * unat (j mod 4)
                \<or> 2 * unat (j mod 4) + 2 \<le> 2 * unat (k mod 4)"
    by arith
  show ?thesis
    using True field_other[OF enc_range d]
    by (simp add: current_state_alt set_state_alt shift_unat)
qed

lemma field_set_free:
  "current_state p (set_state p m k Free) j = (if j = k then 0 else current_state p m j)"
  by (simp add: field_set_same field_set_other enc_def)

text \<open>
  C10. After \<open>set_state(k, s)\<close> the reader returns \<open>s\<close> for frame \<open>k\<close>, and for every
  other frame \<open>j\<close> it returns what it returned before the write, whether or not \<open>j\<close>
  shares a byte with \<open>k\<close>. This holds for all 32-bit frame indices, so in particular for
  those below \<open>n_frames\<close>.
\<close>

theorem set_state_then_get_state:
  "get_state p (set_state p m k s) k = s \<and>
   (j \<noteq> k \<longrightarrow> get_state p (set_state p m k s) j = get_state p m j)"
  by (simp add: get_set_same get_set_other)

theorem set_state_then_get_state_witness:
  "get_state small_pool (set_state small_pool (\<lambda>_. 0x55) 5 HoS) 5 = HoS \<and>
   (6::u32) \<noteq> 5 \<and>
   get_state small_pool (set_state small_pool (\<lambda>_. 0x55) 5 HoS) 6
     = get_state small_pool (\<lambda>_. 0x55) 6"
  using set_state_then_get_state[of small_pool "\<lambda>_. 0x55" 5 HoS 6] by simp

section \<open>The reserved bit pattern\<close>

text \<open>
  C4 (amended). A frame whose two-bit field holds the reserved pattern
  \<open>0b11\<close> is read as \<open>Free\<close>: the reader returns a legal state and signals nothing.
\<close>

theorem get_state_reserved_pattern:
  "current_state p m k = 3 \<Longrightarrow> get_state p m k = Free"
  by (simp add: get_state_def current_state_def Let_def)

theorem get_state_reserved_pattern_witness:
  "current_state small_pool (\<lambda>_. 0xC0) 3 = 3 \<and> get_state small_pool (\<lambda>_. 0xC0) 3 = Free"
proof -
  have h: "current_state small_pool (\<lambda>_. 0xC0) 3 = 3"
    by (simp add: current_state_def small_pool_def)
  from get_state_reserved_pattern[OF h] h show ?thesis by simp
qed

text \<open>
  The claim as the spec states it fails: on a bitmap whose every field is \<open>0b11\<close>, the
  reader answers \<open>Free\<close> for frame 0, the answer it gives for the pattern \<open>0b00\<close>.
\<close>

theorem get_state_reserved_pattern_counterexample:
  "current_state small_pool (\<lambda>_. 0xFF) 0 = 3 \<and>
   get_state small_pool (\<lambda>_. 0xFF) 0 = Free \<and>
   get_state small_pool (\<lambda>_. 0xFF) 0 = get_state small_pool (\<lambda>_. 0x00) 0"
  by (simp add: current_state_def get_state_def small_pool_def)

section \<open>The number of info frames\<close>

lemma nif_unat:
  assumes "unat n \<le> 2147467264"
  shows "unat (needed_info_frames n) = (2 * unat n + 32767) div 32768"
proof -
  have a: "unat (n * 2) = 2 * unat n" using assms by (simp add: unat_word_ariths)
  have b: "n * 2 + 4096 * 8 - 1 = 32767 + n * 2" by simp
  have c: "unat (32767 + n * 2) = 2 * unat n + 32767"
    using assms a by (simp add: unat_word_ariths)
  have "needed_info_frames n = (32767 + n * 2) div 32768"
    unfolding needed_info_frames_def FRAME_SIZE_def Let_def b by simp
  then show ?thesis
    by (simp add: unat_div c)
qed

lemma ceil_div: "\<lceil>real a * 2 / (4096 * 8)\<rceil> = int ((2 * a + 32767) div 32768)"
proof -
  have "real a * 2 / (4096 * 8) = of_int (int (2 * a)) / of_int 32768" by simp
  then have "\<lceil>real a * 2 / (4096 * 8)\<rceil> = - (- int (2 * a) div 32768)"
    by (simp only: ceiling_divide_eq_div)
  also have "\<dots> = int ((2 * a + 32767) div 32768)"
    by (simp add: zdiv_int)
  finally show ?thesis .
qed

lemma nif_one:
  assumes "1 \<le> unat n" "unat n \<le> 16384"
  shows "needed_info_frames n = 1"
proof -
  have "unat (needed_info_frames n) = (2 * unat n + 32767) div 32768"
    using assms by (intro nif_unat) simp
  also have "\<dots> = 1" using assms by simp
  finally show ?thesis by (simp add: word_unat_eq_iff)
qed

text \<open>
  C5 (amended). \<open>needed_info_frames(n)\<close> depends on \<open>n\<close> alone. While
  \<open>2 n + 32767\<close> fits in 32 bits (\<open>n \<le> 2147467264\<close>) it is
  \<open>ceil(n * 2 / (frame_size * 8))\<close> with \<open>frame_size = 4096\<close>, and it is monotone
  on that range; it is 1 for every \<open>n\<close> from 1 to 16384, and 0 for \<open>n = 0\<close>.
\<close>

theorem needed_info_frames_ceiling:
  "(unat n \<le> 2147467264 \<longrightarrow>
      int (unat (needed_info_frames n)) = \<lceil>real (unat n) * 2 / (real (unat FRAME_SIZE) * 8)\<rceil>) \<and>
   (unat a \<le> unat b \<and> unat b \<le> 2147467264 \<longrightarrow>
      needed_info_frames a \<le> needed_info_frames b) \<and>
   (1 \<le> unat n \<and> unat n \<le> 16384 \<longrightarrow> needed_info_frames n = 1) \<and>
   needed_info_frames 0 = 0"
proof (intro conjI impI)
  assume "unat n \<le> 2147467264"
  then show "int (unat (needed_info_frames n))
             = \<lceil>real (unat n) * 2 / (real (unat FRAME_SIZE) * 8)\<rceil>"
    using ceil_div[of "unat n"] by (simp add: nif_unat FRAME_SIZE_def)
next
  assume h: "unat a \<le> unat b \<and> unat b \<le> 2147467264"
  then have "unat (needed_info_frames a) \<le> unat (needed_info_frames b)"
    by (simp add: nif_unat div_le_mono)
  then show "needed_info_frames a \<le> needed_info_frames b"
    by (simp add: word_le_nat_alt)
next
  assume "1 \<le> unat n \<and> unat n \<le> 16384"
  then show "needed_info_frames n = 1" by (simp add: nif_one)
next
  show "needed_info_frames 0 = 0"
    by (simp add: needed_info_frames_def FRAME_SIZE_def)
qed

theorem needed_info_frames_ceiling_witness:
  "unat (512::u32) \<le> 2147467264 \<and>
   int (unat (needed_info_frames 512)) = \<lceil>real (unat (512::u32)) * 2 / (real (unat FRAME_SIZE) * 8)\<rceil> \<and>
   unat (512::u32) \<le> unat (7168::u32) \<and>
   needed_info_frames 512 \<le> needed_info_frames 512 \<and>
   1 \<le> unat (512::u32) \<and> unat (512::u32) \<le> 16384 \<and>
   needed_info_frames 512 = 1"
proof -
  have a: "unat (512::u32) \<le> 2147467264" and b: "unat (512::u32) \<le> unat (7168::u32)"
    and c: "1 \<le> unat (512::u32)" and d: "unat (512::u32) \<le> 16384"
    by simp_all
  note t = needed_info_frames_ceiling[of 512 512 512]
  from t a have "int (unat (needed_info_frames 512))
      = \<lceil>real (unat (512::u32)) * 2 / (real (unat FRAME_SIZE) * 8)\<rceil>"
    by blast
  moreover from t c d have "needed_info_frames 512 = 1" by blast
  ultimately show ?thesis using a b c d by simp
qed

text \<open>
  The claim as the spec states it fails at \<open>n = 0\<close>, where the function returns 0 and
  not 1; and in 32-bit arithmetic it is not monotone over all of \<open>unsigned long\<close>:
  \<open>n * 2\<close> wraps at \<open>n = 2^31\<close>.
\<close>

theorem needed_info_frames_counterexample:
  "needed_info_frames 0 \<noteq> 1 \<and>
   needed_info_frames 1 = 1 \<and> needed_info_frames 2147483648 = 0"
  by (simp add: needed_info_frames_def FRAME_SIZE_def)

section \<open>Words and frame indices\<close>

lemma unat_inc: "(i::u32) < n \<Longrightarrow> unat (i + 1) = unat i + 1"
proof -
  assume "i < n"
  then have "unat i < unat n" by (simp add: word_less_nat_alt)
  moreover have "unat n < 2 ^ 32" using unsigned_less[of n] by simp
  ultimately have "unat i + 1 < 2 ^ 32" by arith
  then show ?thesis by (simp add: unat_word_ariths)
qed

lemma unat_lt32: "unat (w::u32) < 4294967296"
  using unsigned_less[of w] by simp

lemma unat_plus: "unat (a::u32) + unat b < 4294967296 \<Longrightarrow> unat (a + b) = unat a + unat b"
  by (simp add: unat_word_ariths)

lemma unat_of_nat32: "i < 4294967296 \<Longrightarrow> unat (of_nat i :: u32) = i"
  by (simp add: unat_of_nat)

lemma of_nat_eq_iff32: "i < 4294967296 \<Longrightarrow> (of_nat i = (k::u32)) \<longleftrightarrow> i = unat k"
  using unat_of_nat32[of i] by (auto simp: word_unat_eq_iff)

lemma frame_state_set:
  "i < 4294967296 \<Longrightarrow>
   frame_state p (set_state p m k s) i = (if i = unat k then s else frame_state p m i)"
  by (simp add: frame_state_def get_set_same get_set_other of_nat_eq_iff32)

section \<open>The effect of each iteration on the frame states\<close>

lemma release_loop_state:
  assumes "j < 4294967296"
  shows "frame_state p (release_loop p m fno) j =
     (if unat fno \<le> j \<and> j < unat (nframes p) \<and>
         (\<forall>i. unat fno \<le> i \<and> i \<le> j \<longrightarrow> frame_state p m i = Used)
      then Free else frame_state p m j)"
  using assms
proof (induction p m fno rule: release_loop.induct)
  case (1 p m fno)
  let ?R = "\<lambda>m f. unat f \<le> j \<and> j < unat (nframes p) \<and>
         (\<forall>i. unat f \<le> i \<and> i \<le> j \<longrightarrow> frame_state p m i = Used)"
  show ?case
  proof (cases "fno < nframes p \<and> get_state p m fno = Used")
    case False
    then have e: "release_loop p m fno = m" by (subst release_loop.simps) auto
    have u: "frame_state p m (unat fno) = get_state p m fno" by (simp add: frame_state_def)
    have "\<not> ?R m fno"
    proof
      assume R: "?R m fno"
      then have "fno < nframes p" by (simp add: word_less_nat_alt)
      with False u have "frame_state p m (unat fno) \<noteq> Used" by simp
      moreover from R have "frame_state p m (unat fno) = Used" by blast
      ultimately show False by simp
    qed
    then show ?thesis unfolding e by simp
  next
    case True
    let ?m' = "set_state p m fno Free"
    from True have e: "release_loop p m fno = release_loop p ?m' (fno + 1)"
      by (subst release_loop.simps) simp
    from True have inc: "unat (fno + 1) = unat fno + 1" using unat_inc[of fno "nframes p"] by blast
    from True have lt: "unat fno < unat (nframes p)" by (simp add: word_less_nat_alt)
    from True have u: "frame_state p m (unat fno) = Used" by (simp add: frame_state_def)
    have IH: "frame_state p (release_loop p ?m' (fno + 1)) j =
        (if ?R ?m' (fno + 1) then Free else frame_state p ?m' j)"
      using "1.IH"[OF True "1.prems"] .
    have st: "frame_state p ?m' i = (if i = unat fno then Free else frame_state p m i)"
      if "i \<le> j" for i
      using that "1.prems" by (simp add: frame_state_set)
    show ?thesis
    proof (cases "j = unat fno")
      case True
      then have "\<not> ?R ?m' (fno + 1)" by (simp add: inc)
      moreover have "?R m fno" using True lt u by (auto simp: le_antisym)
      ultimately show ?thesis unfolding e IH using True st[of j] by simp
    next
      case False
      have "?R ?m' (fno + 1) \<longleftrightarrow> ?R m fno"
      proof
        assume R: "?R ?m' (fno + 1)"
        have "frame_state p m i = Used" if "unat fno \<le> i \<and> i \<le> j" for i
        proof (cases "i = unat fno")
          case True then show ?thesis using u by simp
        next
          case False
          with that have "unat (fno + 1) \<le> i \<and> i \<le> j" by (simp add: inc)
          with R have "frame_state p ?m' i = Used" by blast
          with False that show ?thesis by (simp add: st)
        qed
        with R show "?R m fno" by (simp add: inc)
      next
        assume R: "?R m fno"
        have "frame_state p ?m' i = Used" if "unat (fno + 1) \<le> i \<and> i \<le> j" for i
        proof -
          from that have "i \<noteq> unat fno" "unat fno \<le> i \<and> i \<le> j" by (simp_all add: inc)
          with R show ?thesis using that by (simp add: st)
        qed
        moreover from R False have "unat (fno + 1) \<le> j" by (simp add: inc)
        ultimately show "?R ?m' (fno + 1)" using R by blast
      qed
      then show ?thesis unfolding e IH using False st[of j] by simp
    qed
  qed
qed

lemma release_loop_field:
  "current_state p (release_loop p m fno) j =
     (if unat fno \<le> unat j \<and> unat j < unat (nframes p) \<and>
         (\<forall>i. unat fno \<le> i \<and> i \<le> unat j \<longrightarrow> frame_state p m i = Used)
      then 0 else current_state p m j)"
proof (induction p m fno rule: release_loop.induct)
  case (1 p m fno)
  let ?R = "\<lambda>m f. unat f \<le> unat j \<and> unat j < unat (nframes p) \<and>
         (\<forall>i. unat f \<le> i \<and> i \<le> unat j \<longrightarrow> frame_state p m i = Used)"
  show ?case
  proof (cases "fno < nframes p \<and> get_state p m fno = Used")
    case False
    then have e: "release_loop p m fno = m" by (subst release_loop.simps) auto
    have u: "frame_state p m (unat fno) = get_state p m fno" by (simp add: frame_state_def)
    have "\<not> ?R m fno"
    proof
      assume R: "?R m fno"
      then have "fno < nframes p" by (simp add: word_less_nat_alt)
      with False u have "frame_state p m (unat fno) \<noteq> Used" by simp
      moreover from R have "frame_state p m (unat fno) = Used" by blast
      ultimately show False by simp
    qed
    then show ?thesis unfolding e by auto
  next
    case True
    let ?m' = "set_state p m fno Free"
    from True have e: "release_loop p m fno = release_loop p ?m' (fno + 1)"
      by (subst release_loop.simps) simp
    from True have inc: "unat (fno + 1) = unat fno + 1" using unat_inc[of fno "nframes p"] by blast
    from True have lt: "unat fno < unat (nframes p)" by (simp add: word_less_nat_alt)
    from True have u: "frame_state p m (unat fno) = Used" by (simp add: frame_state_def)
    have IH: "current_state p (release_loop p ?m' (fno + 1)) j =
        (if ?R ?m' (fno + 1) then 0 else current_state p ?m' j)"
      using "1.IH"[OF True] .
    have st: "frame_state p ?m' i = (if i = unat fno then Free else frame_state p m i)"
      if "i \<le> unat j" for i
      using that unat_lt32[of j] by (simp add: frame_state_set)
    show ?thesis
    proof (cases "j = fno")
      case True
      then have "\<not> ?R ?m' (fno + 1)" by (simp add: inc)
      moreover have "?R m fno" using True lt u by (auto simp: le_antisym)
      ultimately show ?thesis unfolding e IH using True by (simp add: field_set_free)
    next
      case False
      then have ne: "unat j \<noteq> unat fno" by (simp add: word_unat_eq_iff)
      have "?R ?m' (fno + 1) \<longleftrightarrow> ?R m fno"
      proof
        assume R: "?R ?m' (fno + 1)"
        have "frame_state p m i = Used" if "unat fno \<le> i \<and> i \<le> unat j" for i
        proof (cases "i = unat fno")
          case True then show ?thesis using u by simp
        next
          case False
          with that have "unat (fno + 1) \<le> i \<and> i \<le> unat j" by (simp add: inc)
          with R have "frame_state p ?m' i = Used" by blast
          with False that show ?thesis by (simp add: st)
        qed
        with R show "?R m fno" by (simp add: inc)
      next
        assume R: "?R m fno"
        have "frame_state p ?m' i = Used" if "unat (fno + 1) \<le> i \<and> i \<le> unat j" for i
        proof -
          from that have "i \<noteq> unat fno" "unat fno \<le> i \<and> i \<le> unat j" by (simp_all add: inc)
          with R show ?thesis using that by (simp add: st)
        qed
        moreover from R ne have "unat (fno + 1) \<le> unat j" by (simp add: inc)
        ultimately show "?R ?m' (fno + 1)" using R by blast
      qed
      then have eq: "?R ?m' (fno + 1) \<longleftrightarrow> ?R m fno" .
      from False have fs: "current_state p ?m' j = current_state p m j"
        by (simp add: field_set_free)
      show ?thesis
      proof (cases "?R m fno")
        case True
        have R': "?R ?m' (fno + 1)" by (rule iffD2[OF eq True])
        show ?thesis unfolding e IH by (simp only: if_P[OF True] if_P[OF R'])
      next
        case F: False
        have R': "\<not> ?R ?m' (fno + 1)" using F iffD1[OF eq] by (rule contrapos_nn)
        show ?thesis unfolding e IH by (simp only: if_not_P[OF F] if_not_P[OF R'] fs)
      qed
    qed
  qed
qed

lemma mark_loop_state:
  assumes "unat b + unat n \<le> 4294967296" "j < 4294967296"
  shows "frame_state p (mark_loop p m b n i) j =
     (if unat b + unat i \<le> j \<and> j < unat b + unat n then Used else frame_state p m j)"
  using assms
proof (induction p m b n i rule: mark_loop.induct)
  case (1 p m b n i)
  show ?case
  proof (cases "i < n")
    case False
    then have e: "mark_loop p m b n i = m" by (subst mark_loop.simps) simp
    from False have "unat n \<le> unat i" by (simp add: word_less_nat_alt)
    then show ?thesis unfolding e by auto
  next
    case True
    let ?m' = "set_state p m (b + i) Used"
    from True have e: "mark_loop p m b n i = mark_loop p ?m' b n (i + 1)"
      by (subst mark_loop.simps) simp
    from True have inc: "unat (i + 1) = unat i + 1" by (rule unat_inc)
    from True have lt: "unat i < unat n" by (simp add: word_less_nat_alt)
    with "1.prems" have bi: "unat (b + i) = unat b + unat i" by (intro unat_plus) arith
    have IH: "frame_state p (mark_loop p ?m' b n (i + 1)) j =
       (if unat b + unat (i + 1) \<le> j \<and> j < unat b + unat n then Used
        else frame_state p ?m' j)"
      using "1.IH"[OF True "1.prems"] .
    show ?thesis
      unfolding e IH inc using "1.prems" lt by (auto simp: frame_state_set bi)
  qed
qed

lemma mark_inaccessible_state:
  assumes "unat b + unat n \<le> 4294967296" "j < 4294967296"
  shows "frame_state p (mark_inaccessible p m b n) j =
     (if j = unat b then HoS
      else if unat b < j \<and> j < unat b + unat n then Used else frame_state p m j)"
  using assms
  by (auto simp: mark_inaccessible_def mark_loop_state frame_state_set)

lemma init_bitmap_state:
  assumes "j < 4294967296"
  shows "frame_state p (init_bitmap p m n fno) j =
     (if unat fno \<le> j \<and> j < unat n then Free else frame_state p m j)"
  using assms
proof (induction p m n fno rule: init_bitmap.induct)
  case (1 p m n fno)
  show ?case
  proof (cases "fno < n")
    case False
    then have e: "init_bitmap p m n fno = m" by (subst init_bitmap.simps) simp
    from False have "unat n \<le> unat fno" by (simp add: word_less_nat_alt)
    then show ?thesis unfolding e by auto
  next
    case True
    let ?m' = "set_state p m fno Free"
    from True have e: "init_bitmap p m n fno = init_bitmap p ?m' n (fno + 1)"
      by (subst init_bitmap.simps) simp
    from True have inc: "unat (fno + 1) = unat fno + 1" by (rule unat_inc)
    from True have lt: "unat fno < unat n" by (simp add: word_less_nat_alt)
    have IH: "frame_state p (init_bitmap p ?m' n (fno + 1)) j =
       (if unat (fno + 1) \<le> j \<and> j < unat n then Free else frame_state p ?m' j)"
      using "1.IH"[OF True "1.prems"] .
    show ?thesis
      unfolding e IH inc using "1.prems" lt by (auto simp: frame_state_set)
  qed
qed

lemma scan_window_None:
  assumes "unat start + unat n \<le> 4294967296"
  shows "scan_window p m start n i = None \<longleftrightarrow>
     (\<forall>k. unat i \<le> k \<and> k < unat n \<longrightarrow> frame_state p m (unat start + k) = Free)"
  using assms
proof (induction p m start n i rule: scan_window.induct)
  case (1 p m start n i)
  show ?case
  proof (cases "i < n")
    case False
    then have e: "scan_window p m start n i = None" by (subst scan_window.simps) simp
    from False have "unat n \<le> unat i" by (simp add: word_less_nat_alt)
    then show ?thesis unfolding e by auto
  next
    case True
    from True have inc: "unat (i + 1) = unat i + 1" by (rule unat_inc)
    from True have lt: "unat i < unat n" by (simp add: word_less_nat_alt)
    with "1.prems" have si: "unat (start + i) = unat start + unat i" by (intro unat_plus) arith
    have fs: "frame_state p m (unat start + unat i) = get_state p m (start + i)"
      using si by (metis frame_state_def of_nat_unat ucast_id)
    show ?thesis
    proof (cases "get_state p m (start + i) \<noteq> Free")
      case True
      with \<open>i < n\<close> have e: "scan_window p m start n i = Some i"
        by (subst scan_window.simps) simp
      show ?thesis unfolding e using True fs lt by auto
    next
      case False
      with \<open>i < n\<close> have e: "scan_window p m start n i = scan_window p m start n (i + 1)"
        by (subst scan_window.simps) simp
      have IH: "scan_window p m start n (i + 1) = None \<longleftrightarrow>
         (\<forall>k. unat (i + 1) \<le> k \<and> k < unat n \<longrightarrow> frame_state p m (unat start + k) = Free)"
        using "1.IH"[OF \<open>i < n\<close> _ "1.prems"] False by simp
      have "(\<forall>k. unat i \<le> k \<and> k < unat n \<longrightarrow> frame_state p m (unat start + k) = Free)
         \<longleftrightarrow> (\<forall>k. unat i + 1 \<le> k \<and> k < unat n \<longrightarrow> frame_state p m (unat start + k) = Free)"
      proof (intro iffI allI impI)
        fix k assume a: "\<forall>k. unat i + 1 \<le> k \<and> k < unat n \<longrightarrow> frame_state p m (unat start + k) = Free"
          and b: "unat i \<le> k \<and> k < unat n"
        show "frame_state p m (unat start + k) = Free"
        proof (cases "k = unat i")
          case True then show ?thesis using False fs by simp
        next
          case False with a b show ?thesis by simp
        qed
      qed simp
      then show ?thesis unfolding e IH inc by simp
    qed
  qed
qed

lemma scan_window_Some:
  assumes "unat start + unat n \<le> 4294967296" "scan_window p m start n i = Some r"
  shows "unat i \<le> unat r \<and> unat r < unat n \<and>
         frame_state p m (unat start + unat r) \<noteq> Free"
  using assms
proof (induction p m start n i rule: scan_window.induct)
  case (1 p m start n i)
  show ?case
  proof (cases "i < n")
    case False
    then have e: "scan_window p m start n i = None" by (subst scan_window.simps) simp
    with "1.prems" show ?thesis by simp
  next
    case True
    from True have inc: "unat (i + 1) = unat i + 1" by (rule unat_inc)
    from True have lt: "unat i < unat n" by (simp add: word_less_nat_alt)
    with "1.prems" have si: "unat (start + i) = unat start + unat i" by (intro unat_plus) arith
    have fs: "frame_state p m (unat start + unat i) = get_state p m (start + i)"
      using si by (metis frame_state_def of_nat_unat ucast_id)
    show ?thesis
    proof (cases "get_state p m (start + i) \<noteq> Free")
      case True
      with \<open>i < n\<close> have e: "scan_window p m start n i = Some i"
        by (subst scan_window.simps) simp
      with "1.prems" have "r = i" by simp
      then show ?thesis using True fs lt by simp
    next
      case False
      with \<open>i < n\<close> have e: "scan_window p m start n i = scan_window p m start n (i + 1)"
        by (subst scan_window.simps) simp
      have "unat (i + 1) \<le> unat r \<and> unat r < unat n \<and>
         frame_state p m (unat start + unat r) \<noteq> Free"
        using "1.IH"[OF \<open>i < n\<close> _ "1.prems"(1)] False "1.prems"(2) e by simp
      then show ?thesis by (simp add: inc)
    qed
  qed
qed

section \<open>First fit\<close>

lemma free_window_iff:
  "free_window p m s n \<longleftrightarrow>
     s + n \<le> unat (nframes p) \<and> (\<forall>k. k < n \<longrightarrow> frame_state p m (s + k) = Free)"
  by (auto simp: free_window_def list_all_iff)

lemma loop_cond:
  assumes "1 \<le> unat n" "unat n \<le> unat (nframes p)" "unat (nframes p) \<le> 16384"
    "unat start \<le> unat (nframes p)"
  shows "start + n - 1 < nframes p \<longleftrightarrow> unat start + unat n \<le> unat (nframes p)"
proof -
  have a: "start + n - 1 = start + (n - 1)" by simp
  have b: "unat (n - 1) = unat n - 1" using assms(1) by (simp add: unat_sub word_le_nat_alt)
  have c: "unat (start + (n - 1)) = unat start + (unat n - 1)"
    using assms b by (intro unat_plus[THEN trans]) auto
  show ?thesis unfolding a word_less_nat_alt c using assms(1) by arith
qed

lemma get_frames_loop_first_fit:
  assumes "1 \<le> unat n" "unat n \<le> unat (nframes p)" "unat (nframes p) \<le> 16384"
    and "unat start \<le> unat (nframes p)"
    and "\<forall>t<unat start. \<not> free_window p m t (unat n)"
  shows "get_frames_loop p m n start =
     (if \<exists>s. free_window p m s (unat n)
      then Some (of_nat (LEAST s. free_window p m s (unat n)) + base_frame_no p,
                 mark_inaccessible p m (of_nat (LEAST s. free_window p m s (unat n))) n)
      else Some (0, m))"
  using assms(4,5)
proof (induction "unat (nframes p) - unat start" arbitrary: start rule: less_induct)
  case less
  note N = assms(1-3)
  have cond: "start + n - 1 < nframes p \<longleftrightarrow> unat start + unat n \<le> unat (nframes p)"
    using N less.prems(1) by (rule loop_cond)
  show ?case
  proof (cases "unat start + unat n \<le> unat (nframes p)")
    case False
    then have e: "get_frames_loop p m n start = Some (0, m)"
      by (subst get_frames_loop.simps) (simp add: cond)
    have "\<not> free_window p m s (unat n)" for s
    proof (cases "s < unat start")
      case True with less.prems(2) show ?thesis by blast
    next
      case False with \<open>\<not> unat start + unat n \<le> unat (nframes p)\<close>
      show ?thesis by (simp add: free_window_iff)
    qed
    then show ?thesis unfolding e by simp
  next
    case True
    then have sn: "unat start + unat n \<le> 4294967296" using N by arith
    show ?thesis
    proof (cases "scan_window p m start n 0")
      case None
      then have e: "get_frames_loop p m n start
           = Some (start + base_frame_no p, mark_inaccessible p m start n)"
        using True by (subst get_frames_loop.simps) (simp add: cond)
      from None have "\<forall>k. k < unat n \<longrightarrow> frame_state p m (unat start + k) = Free"
        using scan_window_None[OF sn, of p m 0] by simp
      with True have w: "free_window p m (unat start) (unat n)"
        by (simp add: free_window_iff)
      have "(LEAST s. free_window p m s (unat n)) = unat start"
      proof (rule Least_equality)
        show "free_window p m (unat start) (unat n)" by (rule w)
      next
        fix y assume "free_window p m y (unat n)"
        with less.prems(2) show "unat start \<le> y" by (meson not_le)
      qed
      then show ?thesis unfolding e using w by auto
    next
      case (Some r)
      let ?s' = "start + r + 1"
      from scan_window_Some[OF sn Some]
      have r: "unat r < unat n" "frame_state p m (unat start + unat r) \<noteq> Free" by simp_all
      have u1: "unat (start + r) = unat start + unat r"
        using r(1) sn by (intro unat_plus) arith
      have "unat (start + r) + unat (1::u32) < 4294967296"
        using r(1) True N(3) u1 by simp
      from unat_plus[OF this] have u2: "unat ?s' = unat start + unat r + 1"
        using u1 by simp
      have e: "get_frames_loop p m n start = get_frames_loop p m n ?s'"
        using True Some by (subst get_frames_loop.simps) (simp add: cond)
      have le': "unat ?s' \<le> unat (nframes p)" using u2 r(1) True by arith
      have inv': "\<forall>t<unat ?s'. \<not> free_window p m t (unat n)"
      proof (intro allI impI)
        fix t assume t: "t < unat ?s'"
        show "\<not> free_window p m t (unat n)"
        proof (cases "t < unat start")
          case True with less.prems(2) show ?thesis by blast
        next
          case False
          define k where "k = unat start + unat r - t"
          from False t u2 r(1) have "k < unat n" "t + k = unat start + unat r"
            by (simp_all add: k_def)
          with r(2) show ?thesis by (auto simp: free_window_iff)
        qed
      qed
      have "unat (nframes p) - unat ?s' < unat (nframes p) - unat start"
        using u2 True r(1) by arith
      from less.hyps[OF this le' inv'] show ?thesis unfolding e .
    qed
  qed
qed

lemma in_run_iff:
  "in_run p m k j \<longleftrightarrow>
     k < j \<and> j < unat (nframes p) \<and> (\<forall>i. k + 1 \<le> i \<and> i \<le> j \<longrightarrow> frame_state p m i = Used)"
  by (auto simp: in_run_def list_all_iff)

lemma valid_pool_bounds:
  assumes "valid_pool p"
  shows "1 \<le> unat (nframes p)" "unat (nframes p) \<le> 16384"
proof -
  from assms have a: "nframes p \<le> 16384" and b: "needed_info_frames (nframes p) = 1"
    by (simp_all add: valid_pool_def FRAME_SIZE_def)
  from a show "unat (nframes p) \<le> 16384" by (simp add: word_le_nat_alt)
  have "nframes p \<noteq> 0"
  proof
    assume "nframes p = 0"
    with b show False by (simp add: needed_info_frames_def FRAME_SIZE_def)
  qed
  then show "1 \<le> unat (nframes p)" by (simp add: unat_gt_0 Suc_leI)
qed

lemma valid_poolI: "1 \<le> unat (nframes p) \<Longrightarrow> unat (nframes p) \<le> 16384 \<Longrightarrow> valid_pool p"
  by (simp add: valid_pool_def FRAME_SIZE_def nif_one word_le_nat_alt)

lemma get_frames_too_large:
  assumes "1 \<le> unat n" "unat (nframes p) < unat n"
  shows "get_frames p m n = Some (0, m)"
proof -
  have "unat (n - 1) = unat n - 1" using assms(1) by (simp add: unat_sub word_le_nat_alt)
  with assms have "\<not> (0 + n - 1 < nframes p)" by (simp add: word_less_nat_alt)
  then show ?thesis
    unfolding get_frames_def by (subst get_frames_loop.simps) simp
qed

lemma get_frames_result:
  assumes "valid_pool p" "1 \<le> unat n"
  shows "get_frames p m n =
     (if \<exists>s. free_window p m s (unat n)
      then Some (of_nat (LEAST s. free_window p m s (unat n)) + base_frame_no p,
                 mark_inaccessible p m (of_nat (LEAST s. free_window p m s (unat n))) n)
      else Some (0, m))"
proof (cases "unat n \<le> unat (nframes p)")
  case True
  show ?thesis
    unfolding get_frames_def
    using assms(2) True valid_pool_bounds(2)[OF assms(1)]
    by (rule get_frames_loop_first_fit) simp_all
next
  case False
  then have "\<not> free_window p m s (unat n)" for s by (simp add: free_window_iff)
  with False assms(2) show ?thesis by (simp add: get_frames_too_large)
qed

lemma least_window:
  assumes "free_window p m s n" "\<forall>t. t < s \<longrightarrow> \<not> free_window p m t n"
  shows "(LEAST s. free_window p m s n) = s"
  using assms by (intro Least_equality) (auto simp: not_less[symmetric])

text \<open>
  C1. On a pool that has passed the constructor's assertions, for a request \<open>n \<ge> 1\<close>:
  if \<open>s\<close> is the lowest relative index at which \<open>n\<close> consecutive frames inside the pool
  all read \<open>Free\<close>, \<open>get_frames(n)\<close> returns \<open>base_frame_no + s\<close> and leaves the
  memory that \<open>mark_inaccessible(s, n)\<close> leaves: frame \<open>s\<close> is \<open>HoS\<close>, the \<open>n - 1\<close>
  frames after it are \<open>Used\<close>, every other frame reads as before. If no such window
  exists, it returns 0 and memory is unchanged. In both cases the call returns.
\<close>

theorem get_frames_first_fit:
  assumes "valid_pool p" "1 \<le> unat n"
  shows "(free_window p m s (unat n) \<and> (\<forall>t. t < s \<longrightarrow> \<not> free_window p m t (unat n)) \<longrightarrow>
            get_frames p m n
              = Some (base_frame_no p + of_nat s, mark_inaccessible p m (of_nat s) n) \<and>
            (\<forall>j<unat (nframes p).
               frame_state p (mark_inaccessible p m (of_nat s) n) j =
                 (if j = s then HoS
                  else if s < j \<and> j < s + unat n then Used
                  else frame_state p m j))) \<and>
         ((\<forall>s. \<not> free_window p m s (unat n)) \<longrightarrow> get_frames p m n = Some (0, m))"
proof (intro conjI impI allI)
  assume w: "free_window p m s (unat n) \<and> (\<forall>t. t < s \<longrightarrow> \<not> free_window p m t (unat n))"
  then have l: "(LEAST s. free_window p m s (unat n)) = s" by (simp add: least_window)
  from w have "\<exists>s. free_window p m s (unat n)" by blast
  then show "get_frames p m n
      = Some (base_frame_no p + of_nat s, mark_inaccessible p m (of_nat s) n)"
    by (simp add: get_frames_result[OF assms] l add.commute)
next
  fix j
  assume w: "free_window p m s (unat n) \<and> (\<forall>t. t < s \<longrightarrow> \<not> free_window p m t (unat n))"
    and j: "j < unat (nframes p)"
  from w have sn: "s + unat n \<le> unat (nframes p)" by (simp add: free_window_iff)
  with valid_pool_bounds(2)[OF assms(1)] have s: "s < 4294967296" by arith
  then have us: "unat (of_nat s :: u32) = s" by (rule unat_of_nat32)
  have "unat (of_nat s :: u32) + unat n \<le> 4294967296" "j < 4294967296"
    using us sn j valid_pool_bounds(2)[OF assms(1)] by simp_all
  from mark_inaccessible_state[OF this]
  show "frame_state p (mark_inaccessible p m (of_nat s) n) j =
          (if j = s then HoS
           else if s < j \<and> j < s + unat n then Used
           else frame_state p m j)"
    by (simp add: us)
next
  assume "\<forall>s. \<not> free_window p m s (unat n)"
  then show "get_frames p m n = Some (0, m)"
    by (simp add: get_frames_result[OF assms])
qed

lemma all_used: "get_state p full_bitmap k = Used"
proof -
  have "unat (k mod 4) = 0 \<or> unat (k mod 4) = 1 \<or> unat (k mod 4) = 2 \<or> unat (k mod 4) = 3"
    using mod4_lt[of k] by arith
  then show ?thesis
    by (auto simp: get_state_def Let_def shift_unat full_bitmap_def)
qed

lemma valid_small_pool: "valid_pool small_pool"
  by (rule valid_poolI) (simp_all add: small_pool_def)

lemma frame_state_gapped:
  "frame_state small_pool gapped_bitmap 0 = HoS"
  "frame_state small_pool gapped_bitmap 1 = Free"
  "frame_state small_pool gapped_bitmap 2 = HoS"
  "frame_state small_pool gapped_bitmap 3 = Free"
  "frame_state small_pool gapped_bitmap 4 = Free"
  by code_simp+

theorem get_frames_first_fit_witness:
  "valid_pool small_pool \<and> 1 \<le> unat (2::u32) \<and>
   free_window small_pool gapped_bitmap 3 (unat (2::u32)) \<and>
   \<not> free_window small_pool gapped_bitmap 0 (unat (2::u32)) \<and>
   \<not> free_window small_pool gapped_bitmap 1 (unat (2::u32)) \<and>
   \<not> free_window small_pool gapped_bitmap 2 (unat (2::u32)) \<and>
   get_frames small_pool gapped_bitmap 2
     = Some (515, mark_inaccessible small_pool gapped_bitmap 3 2) \<and>
   frame_state small_pool (mark_inaccessible small_pool gapped_bitmap 3 2) 3 = HoS \<and>
   frame_state small_pool (mark_inaccessible small_pool gapped_bitmap 3 2) 4 = Used \<and>
   frame_state small_pool (mark_inaccessible small_pool gapped_bitmap 3 2) 2 = HoS \<and>
   (\<forall>s. \<not> free_window small_pool full_bitmap s (unat (2::u32))) \<and>
   get_frames small_pool full_bitmap 2 = Some (0, full_bitmap)"
proof -
  have n: "1 \<le> unat (2::u32)" by simp
  have w3: "free_window small_pool gapped_bitmap 3 (unat (2::u32))"
    by code_simp
  have w0: "\<not> free_window small_pool gapped_bitmap 0 (unat (2::u32))"
    by code_simp
  have w1: "\<not> free_window small_pool gapped_bitmap 1 (unat (2::u32))"
    by code_simp
  have w2: "\<not> free_window small_pool gapped_bitmap 2 (unat (2::u32))"
    by code_simp
  have low: "\<forall>t. t < 3 \<longrightarrow> \<not> free_window small_pool gapped_bitmap t (unat (2::u32))"
  proof (intro allI impI)
    fix t :: nat assume "t < 3"
    then have "t = 0 \<or> t = 1 \<or> t = 2" by arith
    with w0 w1 w2 show "\<not> free_window small_pool gapped_bitmap t (unat (2::u32))" by blast
  qed
  have none: "\<forall>s. \<not> free_window small_pool full_bitmap s (unat (2::u32))"
    by (auto simp: free_window_iff frame_state_def all_used intro: exI[of _ 0])
  note t1 = get_frames_first_fit[OF valid_small_pool n, of gapped_bitmap 3]
  note t2 = get_frames_first_fit[OF valid_small_pool n, of full_bitmap 0]
  from t1 w3 low have a: "get_frames small_pool gapped_bitmap 2
      = Some (base_frame_no small_pool + of_nat 3,
              mark_inaccessible small_pool gapped_bitmap (of_nat 3) 2)"
    and b: "\<forall>j<unat (nframes small_pool).
       frame_state small_pool (mark_inaccessible small_pool gapped_bitmap (of_nat 3) 2) j =
         (if j = 3 then HoS else if 3 < j \<and> j < 3 + unat (2::u32) then Used
          else frame_state small_pool gapped_bitmap j)"
    by blast+
  from a have a': "get_frames small_pool gapped_bitmap 2
      = Some (515, mark_inaccessible small_pool gapped_bitmap 3 2)"
    by (simp add: small_pool_def)
  have l: "(3::nat) < unat (nframes small_pool)" "(4::nat) < unat (nframes small_pool)"
    "(2::nat) < unat (nframes small_pool)"
    by (simp_all add: small_pool_def)
  from b l have c: "frame_state small_pool (mark_inaccessible small_pool gapped_bitmap 3 2) 3 = HoS"
    "frame_state small_pool (mark_inaccessible small_pool gapped_bitmap 3 2) 4 = Used"
    "frame_state small_pool (mark_inaccessible small_pool gapped_bitmap 3 2) 2 = HoS"
    by (simp_all add: frame_state_gapped)
  from t2 none have d: "get_frames small_pool full_bitmap 2 = Some (0, full_bitmap)" by blast
  from valid_small_pool n w3 w0 w1 w2 a' c none d show ?thesis by blast
qed

section \<open>Release on one pool\<close>

lemma release_in_pool_frames:
  assumes "k < unat (nframes p)"
  shows "(frame_state p (mem s) k = HoS \<longrightarrow>
            (\<forall>j<unat (nframes p).
               frame_state p (mem (release_in_pool p (of_nat k) s)) j =
                 (if j = k \<or> in_run p (mem s) k j then Free else frame_state p (mem s) j)) \<and>
            console (release_in_pool p (of_nat k) s) = console s) \<and>
         (frame_state p (mem s) k \<noteq> HoS \<longrightarrow>
            release_in_pool p (of_nat k) s = s\<lparr>console := console s @ [not_a_head]\<rparr>)"
proof -
  have k32: "k < 4294967296" using assms unat_lt32[of "nframes p"] by arith
  then have uk: "unat (of_nat k :: u32) = k" by (rule unat_of_nat32)
  have "of_nat k < nframes p" using assms uk by (simp add: word_less_nat_alt)
  then have uk1: "unat (of_nat k + 1 :: u32) = k + 1" using unat_inc uk by metis
  let ?m1 = "set_state p (mem s) (of_nat k) Free"
  have main: "frame_state p (release_loop p ?m1 (of_nat k + 1)) j =
       (if j = k \<or> in_run p (mem s) k j then Free else frame_state p (mem s) j)"
    if j: "j < unat (nframes p)" for j
  proof -
    have j32: "j < 4294967296" using j unat_lt32[of "nframes p"] by arith
    have st: "frame_state p ?m1 i = (if i = k then Free else frame_state p (mem s) i)"
      if "i \<le> j" for i
      using that j32 by (simp add: frame_state_set uk)
    have "(\<forall>i. k + 1 \<le> i \<and> i \<le> j \<longrightarrow> frame_state p ?m1 i = Used)
          \<longleftrightarrow> (\<forall>i. k + 1 \<le> i \<and> i \<le> j \<longrightarrow> frame_state p (mem s) i = Used)"
      using st by auto
    then show ?thesis
      using st[of j] j
      by (simp add: release_loop_state[OF j32] uk1 in_run_iff) (auto simp: Suc_le_eq)
  qed
  show ?thesis
    using main by (simp add: release_in_pool_def frame_state_def not_a_head_def)
qed

lemma release_in_pool_fields:
  assumes "unat k < unat (nframes p)" "get_state p (mem s) k = HoS"
  shows "current_state p (mem (release_in_pool p k s)) j =
     (if j = k \<or> in_run p (mem s) (unat k) (unat j) then 0 else current_state p (mem s) j)"
proof -
  from assms(1) have "k < nframes p" by (simp add: word_less_nat_alt)
  then have uk1: "unat (k + 1) = unat k + 1" by (rule unat_inc)
  let ?m1 = "set_state p (mem s) k Free"
  have st: "frame_state p ?m1 i = (if i = unat k then Free else frame_state p (mem s) i)"
    if "i \<le> unat j" for i
    using that unat_lt32[of j] by (simp add: frame_state_set)
  have q: "(\<forall>i. unat k + 1 \<le> i \<and> i \<le> unat j \<longrightarrow> frame_state p ?m1 i = Used)
        \<longleftrightarrow> (\<forall>i. unat k + 1 \<le> i \<and> i \<le> unat j \<longrightarrow> frame_state p (mem s) i = Used)"
    using st by auto
  have jk: "j = k \<longleftrightarrow> unat j = unat k" by (simp add: word_unat_eq_iff)
  have "current_state p (release_loop p ?m1 (k + 1)) j =
     (if j = k \<or> in_run p (mem s) (unat k) (unat j) then 0 else current_state p (mem s) j)"
    unfolding release_loop_field uk1 q in_run_iff field_set_free jk
    by (auto simp: Suc_le_eq)
  with assms(2) show ?thesis by (simp add: release_in_pool_def)
qed

lemma release_in_pool_states:
  assumes "unat k < unat (nframes p)" "get_state p (mem s) k = HoS"
  shows "get_state p (mem (release_in_pool p k s)) j =
     (if j = k \<or> in_run p (mem s) (unat k) (unat j) then Free else get_state p (mem s) j)"
  by (simp add: get_state_field release_in_pool_fields[OF assms])

lemma release_in_pool_other:
  assumes "get_state p (mem s) k \<noteq> HoS"
  shows "release_in_pool p k s = s\<lparr>console := console s @ [not_a_head]\<rparr>"
  using assms by (simp add: release_in_pool_def not_a_head_def)

lemma release_in_pool_console:
  assumes "get_state p (mem s) k = HoS"
  shows "console (release_in_pool p k s) = console s"
  using assms by (simp add: release_in_pool_def)

section \<open>A freshly constructed pool\<close>

lemma insert_pool_data:
  assumes "insert_pool this s = Some s'"
  shows "base_frame_no (pools s' a) = base_frame_no (pools s a)"
    "nframes (pools s' a) = nframes (pools s a)"
    "info_frame_no (pools s' a) = info_frame_no (pools s a)"
    "bitmap (pools s' a) = bitmap (pools s a)"
    "mem s' = mem s" "console s' = console s"
  using assms
  by (auto simp: insert_pool_def insert_after_def insert_before_def upd_pool_def Let_def
           split: option.splits if_splits)

lemma ctor_result:
  assumes "ContFramePool_ctor this b n info s = Some s'"
  shows "base_frame_no (pools s' this) = b" "nframes (pools s' this) = n"
    "info_frame_no (pools s' this) = info"
    "bitmap (pools s' this) = (if info = 0 then b * FRAME_SIZE else info * FRAME_SIZE)"
    "mem s' = (if info = 0
               then set_state (pools s' this) (init_bitmap (pools s' this) (mem s) n 0) 0 HoS
               else init_bitmap (pools s' this) (mem s) n 0)"
    "valid_pool (pools s' this)"
proof -
  let ?s0 = "upd_pool this
     (\<lambda>c. c\<lparr>base_frame_no := b, nframes := n, info_frame_no := info,
            prev_pool := None, next_pool := None\<rparr>) s"
  from assms have v: "n \<le> FRAME_SIZE * 8 div 2" "needed_info_frames n = 1"
    by (auto simp: ContFramePool_ctor_def split: if_splits)
  from assms v obtain s1 where s1: "insert_pool this ?s0 = Some s1"
    by (auto simp: ContFramePool_ctor_def Let_def split: option.splits)
  let ?s2 = "upd_pool this
     (\<lambda>c. c\<lparr>bitmap := (if info_frame_no c = 0 then base_frame_no c * FRAME_SIZE
                        else info_frame_no c * FRAME_SIZE)\<rparr>) s1"
  from assms v s1 have s': "s' = ?s2\<lparr>mem :=
        (if info = 0
         then set_state (pools ?s2 this) (init_bitmap (pools ?s2 this) (mem ?s2) n 0) 0 HoS
         else init_bitmap (pools ?s2 this) (mem ?s2) n 0),
      console := console ?s2 @ [''Frame Pool initialized'' @ [CHR 0x0A]]\<rparr>"
    by (simp add: ContFramePool_ctor_def Let_def)
  note d = insert_pool_data[OF s1]
  have p: "pools s' = pools ?s2" by (subst s') simp
  show "base_frame_no (pools s' this) = b" "nframes (pools s' this) = n"
    "info_frame_no (pools s' this) = info"
    "bitmap (pools s' this) = (if info = 0 then b * FRAME_SIZE else info * FRAME_SIZE)"
    unfolding p using d by (simp_all add: upd_pool_def)
  then show "valid_pool (pools s' this)" using v by (simp add: valid_pool_def)
  have "mem ?s2 = mem s" using d by (simp add: upd_pool_def)
  then show "mem s' = (if info = 0
               then set_state (pools s' this) (init_bitmap (pools s' this) (mem s) n 0) 0 HoS
               else init_bitmap (pools s' this) (mem s) n 0)"
    unfolding p by (subst s') simp
qed

lemma ctor_frame_state:
  assumes "ContFramePool_ctor this b n info s = Some s'" "j < unat n"
  shows "frame_state (pools s' this) (mem s') j = (if info = 0 \<and> j = 0 then HoS else Free)"
proof -
  have "j < 4294967296" using assms(2) unat_lt32[of n] by arith
  then show ?thesis
    using assms(2)
    by (simp add: ctor_result(5)[OF assms(1)] frame_state_set init_bitmap_state)
qed

lemma ctor_boot:
  assumes "head s = None" "1 \<le> unat n" "unat n \<le> 16384"
  shows "ContFramePool_ctor this b n info s \<noteq> None"
proof -
  have "n \<le> FRAME_SIZE * 8 div 2" using assms by (simp add: FRAME_SIZE_def word_le_nat_alt)
  moreover have "needed_info_frames n = 1" using assms by (simp add: nif_one)
  ultimately show ?thesis
    using assms(1) by (simp add: ContFramePool_ctor_def Let_def insert_pool_def upd_pool_def)
qed

lemma get_frames_at:
  assumes "valid_pool p" "1 \<le> unat n" "free_window p m s (unat n)"
    "\<forall>t. t < s \<longrightarrow> \<not> free_window p m t (unat n)"
  shows "get_frames p m n
     = Some (base_frame_no p + of_nat s, mark_inaccessible p m (of_nat s) n)"
proof -
  have "(LEAST s. free_window p m s (unat n)) = s" using assms(3,4) by (rule least_window)
  moreover have "\<exists>s. free_window p m s (unat n)" using assms(3) by blast
  ultimately show ?thesis
    by (simp add: get_frames_result[OF assms(1,2)] add.commute)
qed

lemma get_frames_none:
  assumes "valid_pool p" "1 \<le> unat n" "\<forall>s. \<not> free_window p m s (unat n)"
  shows "get_frames p m n = Some (0, m)"
  using assms(3) by (simp add: get_frames_result[OF assms(1,2)])

text \<open>
  C8 (amended). Right after the constructor has returned: on a pool with an external
  info frame, \<open>get_frames(n_frames)\<close> returns \<open>base_frame_no\<close>, having marked the whole
  pool; on a self-backed pool, \<open>get_frames(n_frames)\<close> returns 0 and changes nothing,
  and, when the pool has at least two frames, \<open>get_frames(n_frames - 1)\<close> returns
  \<open>base_frame_no + 1\<close>, having marked the frames from 1 on.
\<close>

theorem fresh_pool_get_frames:
  assumes "ContFramePool_ctor this b n info s = Some s'"
  shows "base_frame_no (pools s' this) = b \<and> nframes (pools s' this) = n \<and>
    (info \<noteq> 0 \<longrightarrow>
       get_frames (pools s' this) (mem s') n
         = Some (b, mark_inaccessible (pools s' this) (mem s') 0 n)) \<and>
    (info = 0 \<longrightarrow>
       get_frames (pools s' this) (mem s') n = Some (0, mem s') \<and>
       (2 \<le> unat n \<longrightarrow>
          get_frames (pools s' this) (mem s') (n - 1)
            = Some (b + 1, mark_inaccessible (pools s' this) (mem s') 1 (n - 1))))"
proof -
  let ?p = "pools s' this" and ?m = "mem s'"
  note r = ctor_result[OF assms]
  note fs = ctor_frame_state[OF assms]
  have v: "valid_pool ?p" by (rule r(6))
  have n1: "1 \<le> unat n" using valid_pool_bounds(1)[OF v] r(2) by simp
  have ext: "get_frames ?p ?m n = Some (b, mark_inaccessible ?p ?m 0 n)" if "info \<noteq> 0"
  proof -
    have "free_window ?p ?m 0 (unat n)"
      using that fs by (simp add: free_window_iff r(2))
    from get_frames_at[OF v n1 this] show ?thesis by (simp add: r(1))
  qed
  have self: "get_frames ?p ?m n = Some (0, ?m)" if "info = 0"
  proof -
    have "\<not> free_window ?p ?m t (unat n)" for t
    proof
      assume w: "free_window ?p ?m t (unat n)"
      then have "t = 0" using n1 by (simp add: free_window_iff r(2))
      with w n1 have "frame_state ?p ?m 0 = Free" by (auto simp: free_window_iff)
      with that n1 show False using fs[of 0] by simp
    qed
    then show ?thesis using get_frames_none[OF v n1] by blast
  qed
  have self1: "get_frames ?p ?m (n - 1) = Some (b + 1, mark_inaccessible ?p ?m 1 (n - 1))"
    if "info = 0" "2 \<le> unat n"
  proof -
    have u: "unat (n - 1) = unat n - 1" using n1 by (simp add: unat_sub word_le_nat_alt)
    have n1': "1 \<le> unat (n - 1)" using that(2) u by simp
    have w: "free_window ?p ?m 1 (unat (n - 1))"
      using that fs by (simp add: free_window_iff r(2) u)
    have "\<not> free_window ?p ?m 0 (unat (n - 1))"
    proof
      assume "free_window ?p ?m 0 (unat (n - 1))"
      with n1' have "frame_state ?p ?m 0 = Free" by (auto simp: free_window_iff)
      with that n1 show False using fs[of 0] by simp
    qed
    then have "\<forall>t. t < 1 \<longrightarrow> \<not> free_window ?p ?m t (unat (n - 1))" by simp
    from get_frames_at[OF v n1' w this] show ?thesis by (simp add: r(1))
  qed
  from r(1,2) ext self self1 show ?thesis by blast
qed

lemma the_ctor_boot:
  assumes "1 \<le> unat n" "unat n \<le> 16384"
  shows "ContFramePool_ctor this b n info boot_kernel
           = Some (the (ContFramePool_ctor this b n info boot_kernel))"
proof -
  have "head boot_kernel = None" by (simp add: boot_kernel_def)
  from ctor_boot[OF this assms] show ?thesis by simp
qed

theorem fresh_pool_get_frames_witness:
  "ContFramePool_ctor 0 1024 8 600 boot_kernel = Some external_kernel \<and>
   (600::u32) \<noteq> 0 \<and>
   get_frames (pools external_kernel 0) (mem external_kernel) 8
     = Some (1024, mark_inaccessible (pools external_kernel 0) (mem external_kernel) 0 8) \<and>
   ContFramePool_ctor 0 512 8 0 boot_kernel = Some self_backed_kernel \<and>
   get_frames (pools self_backed_kernel 0) (mem self_backed_kernel) 8
     = Some (0, mem self_backed_kernel) \<and>
   2 \<le> unat (8::u32) \<and>
   get_frames (pools self_backed_kernel 0) (mem self_backed_kernel) (8 - 1)
     = Some (512 + 1,
             mark_inaccessible (pools self_backed_kernel 0) (mem self_backed_kernel) 1 (8 - 1))"
proof -
  have e: "ContFramePool_ctor 0 1024 8 600 boot_kernel = Some external_kernel"
    unfolding external_kernel_def by (rule the_ctor_boot) simp_all
  have s: "ContFramePool_ctor 0 512 8 0 boot_kernel = Some self_backed_kernel"
    unfolding self_backed_kernel_def by (rule the_ctor_boot) simp_all
  have n: "(600::u32) \<noteq> 0" "2 \<le> unat (8::u32)" by simp_all
  from fresh_pool_get_frames[OF e] fresh_pool_get_frames[OF s] e s n
  show ?thesis by blast
qed

text \<open>
  The claim as the spec states it fails for a self-backed pool of one frame: there
  \<open>get_frames(n_frames - 1)\<close> is \<open>get_frames(0)\<close>, which returns 0 and not
  \<open>base_frame_no + 1 = 513\<close>.
\<close>

theorem fresh_pool_get_frames_counterexample:
  "ContFramePool_ctor 0 512 1 0 boot_kernel = Some single_frame_kernel \<and>
   base_frame_no (pools single_frame_kernel 0) = 512 \<and>
   nframes (pools single_frame_kernel 0) = 1 \<and>
   info_frame_no (pools single_frame_kernel 0) = 0 \<and>
   get_frames (pools single_frame_kernel 0) (mem single_frame_kernel) (1 - 1)
     = Some (0, mem single_frame_kernel)"
proof -
  have c: "ContFramePool_ctor 0 512 1 0 boot_kernel = Some single_frame_kernel"
    unfolding single_frame_kernel_def by (rule the_ctor_boot) simp_all
  note r = ctor_result[OF c]
  have "get_frames (pools single_frame_kernel 0) (mem single_frame_kernel) (1 - 1)
     = Some (0, mem single_frame_kernel)"
    unfolding get_frames_def by (subst get_frames_loop.simps) (simp add: r(2))
  with c r(1-3) show ?thesis by simp
qed

section \<open>The registry\<close>

lemma path_append:
  "path N x (as @ bs) z \<longleftrightarrow> (\<exists>y. path N x as y \<and> path N y bs z)"
  by (induction as arbitrary: x) auto

lemma path_cong:
  "(\<And>a. a \<in> set as \<Longrightarrow> N a = N' a) \<Longrightarrow> path N x as y = path N' x as y"
  by (induction as arbitrary: x) auto

text \<open>The heap determines the list of the registry.\<close>

lemma path_unique:
  "path N x as None \<Longrightarrow> path N x bs None \<Longrightarrow> as = bs"
proof (induction as arbitrary: x bs)
  case Nil
  then show ?case by (cases bs) auto
next
  case (Cons a as)
  then show ?case by (cases bs) auto
qed

lemma back_links_append:
  "back_links R q (as @ bs) \<longleftrightarrow>
     back_links R q as \<and> back_links R (if as = [] then q else Some (last as)) bs"
  by (induction as arbitrary: q) auto

lemma back_links_cong:
  "(\<And>a. a \<in> set as \<Longrightarrow> R a = R' a) \<Longrightarrow> back_links R q as = back_links R' q as"
  by (induction as arbitrary: q) auto

lemma find_position_path:
  assumes "path (\<lambda>a. next_pool (P a)) (Some a) (a # as) None"
  shows "\<exists>xs tmp ys. a # as = xs @ tmp # ys \<and> find_position P b a = Some tmp \<and>
           (\<forall>z\<in>set xs. base_frame_no (P z) < b) \<and>
           (base_frame_no (P tmp) < b \<longrightarrow> ys = [])"
  using assms
proof (induction as arbitrary: a)
  case Nil
  then have "next_pool (P a) = None" by simp
  then have "find_position P b a = Some a"
    by (subst find_position.simps) simp
  then show ?case by (intro exI[of _ "[]"] exI[of _ a]) simp
next
  case (Cons a' as)
  then have nx: "next_pool (P a) = Some a'"
    and p: "path (\<lambda>a. next_pool (P a)) (Some a') (a' # as) None"
    by simp_all
  show ?case
  proof (cases "base_frame_no (P a) < b")
    case False
    then have "find_position P b a = Some a"
      by (subst find_position.simps) simp
    with False show ?thesis
      by (intro exI[of _ "[]"] exI[of _ a] exI[of _ "a' # as"]) simp
  next
    case True
    from Cons.IH[OF p] obtain xs tmp ys where
      d: "a' # as = xs @ tmp # ys" and f: "find_position P b a' = Some tmp"
      and l: "\<forall>z\<in>set xs. base_frame_no (P z) < b"
      and e: "base_frame_no (P tmp) < b \<longrightarrow> ys = []"
      by blast
    from True nx f have "find_position P b a = Some tmp"
      by (subst find_position.simps) simp
    with d l e True show ?thesis
      by (intro exI[of _ "a # xs"] exI[of _ tmp] exI[of _ ys]) simp
  qed
qed

lemma insert_after_fields:
  assumes "this \<noteq> tmp" "next_pool (pools s tmp) = None"
  shows "next_pool (pools (insert_after this tmp s) a) =
           (if a = tmp then Some this else if a = this then None else next_pool (pools s a))"
    "prev_pool (pools (insert_after this tmp s) a) =
           (if a = this then Some tmp else prev_pool (pools s a))"
    "base_frame_no (pools (insert_after this tmp s) a) = base_frame_no (pools s a)"
    "nframes (pools (insert_after this tmp s) a) = nframes (pools s a)"
    "head (insert_after this tmp s) = head s"
  using assms by (simp_all add: insert_after_def upd_pool_def Let_def)

lemma insert_before_fields_head:
  assumes "this \<noteq> tmp" "prev_pool (pools s tmp) = None"
  shows "next_pool (pools (insert_before this tmp s) a) =
           (if a = this then Some tmp else next_pool (pools s a))"
    "prev_pool (pools (insert_before this tmp s) a) =
           (if a = tmp then Some this else prev_pool (pools s a))"
    "base_frame_no (pools (insert_before this tmp s) a) = base_frame_no (pools s a)"
    "nframes (pools (insert_before this tmp s) a) = nframes (pools s a)"
    "head (insert_before this tmp s) = Some this"
  using assms by (simp_all add: insert_before_def upd_pool_def Let_def)

lemma insert_before_fields_mid:
  assumes "this \<noteq> tmp" "prev_pool (pools s tmp) = Some pv" "pv \<noteq> this" "pv \<noteq> tmp"
  shows "next_pool (pools (insert_before this tmp s) a) =
           (if a = pv then Some this else if a = this then Some tmp
            else next_pool (pools s a))"
    "prev_pool (pools (insert_before this tmp s) a) =
           (if a = tmp then Some this else if a = this then Some pv
            else prev_pool (pools s a))"
    "base_frame_no (pools (insert_before this tmp s) a) = base_frame_no (pools s a)"
    "nframes (pools (insert_before this tmp s) a) = nframes (pools s a)"
    "head (insert_before this tmp s) = head s"
  using assms by (simp_all add: insert_before_def upd_pool_def Let_def)

lemma valid_pool_nframes: "nframes p = nframes q \<Longrightarrow> valid_pool p = valid_pool q"
  by (simp add: valid_pool_def)

lemma registry_insert_after:
  assumes reg: "registry s (xs @ [tmp])" and fresh: "this \<notin> set (xs @ [tmp])"
    and prev: "prev_pool (pools s this) = None"
    and v: "valid_pool (pools s this)"
    and lt: "\<forall>z\<in>set (xs @ [tmp]). base_frame_no (pools s z) < base_frame_no (pools s this)"
  shows "registry (insert_after this tmp s) (xs @ [tmp] @ [this])"
proof -
  let ?s' = "insert_after this tmp s"
  let ?N = "\<lambda>a. next_pool (pools s a)" and ?R = "\<lambda>a. prev_pool (pools s a)"
  let ?N' = "\<lambda>a. next_pool (pools ?s' a)" and ?R' = "\<lambda>a. prev_pool (pools ?s' a)"
  from fresh have ne: "this \<noteq> tmp" and nx: "this \<notin> set xs" by auto
  from reg have p: "path ?N (head s) (xs @ [tmp]) None"
    and bl: "back_links ?R None (xs @ [tmp])"
    and d: "distinct (xs @ [tmp])"
    and so: "sorted (map (\<lambda>a. base_frame_no (pools s a)) (xs @ [tmp]))"
    and va: "list_all (\<lambda>a. valid_pool (pools s a)) (xs @ [tmp])"
    by (simp_all add: registry_def)
  from p have p1: "path ?N (head s) xs (Some tmp)" and nt: "?N tmp = None"
    by (auto simp: path_append)
  note f = insert_after_fields[OF ne nt]
  from d have tx: "tmp \<notin> set xs" by simp
  have "path ?N' (head s) xs (Some tmp) = path ?N (head s) xs (Some tmp)"
    by (rule path_cong) (use nx tx in \<open>auto simp: f\<close>)
  with p1 have P: "path ?N' (head ?s') (xs @ [tmp] @ [this]) None"
    using ne by (simp add: path_append f)
  have "back_links ?R' None (xs @ [tmp]) = back_links ?R None (xs @ [tmp])"
    by (rule back_links_cong) (use fresh in \<open>auto simp: f\<close>)
  with bl have B: "back_links ?R' None (xs @ [tmp] @ [this])"
    using back_links_append[of ?R' None "xs @ [tmp]" "[this]"] by (simp add: f)
  have D: "distinct (xs @ [tmp] @ [this])" using d fresh by simp
  have S: "sorted (map (\<lambda>a. base_frame_no (pools ?s' a)) (xs @ [tmp] @ [this]))"
    using so lt by (auto simp: f sorted_append less_imp_le)
  have V: "list_all (\<lambda>a. valid_pool (pools ?s' a)) (xs @ [tmp] @ [this])"
    using va v by (simp add: valid_pool_nframes[OF f(4)])
  from P B D S V show ?thesis unfolding registry_def by blast
qed

lemma registry_insert_before:
  assumes reg: "registry s (xs @ tmp # ys)" and fresh: "this \<notin> set (xs @ tmp # ys)"
    and links: "prev_pool (pools s this) = None"
    and v: "valid_pool (pools s this)"
    and lt: "\<forall>z\<in>set xs. base_frame_no (pools s z) < base_frame_no (pools s this)"
    and ge: "\<not> base_frame_no (pools s tmp) < base_frame_no (pools s this)"
  shows "registry (insert_before this tmp s) (xs @ this # tmp # ys)"
proof -
  let ?s' = "insert_before this tmp s"
  let ?N = "\<lambda>a. next_pool (pools s a)" and ?R = "\<lambda>a. prev_pool (pools s a)"
  let ?N' = "\<lambda>a. next_pool (pools ?s' a)" and ?R' = "\<lambda>a. prev_pool (pools ?s' a)"
  let ?B = "\<lambda>a. base_frame_no (pools s a)"
  from fresh have ne: "this \<noteq> tmp" and nx: "this \<notin> set xs" and ny: "this \<notin> set ys"
    by auto
  from reg have p: "path ?N (head s) (xs @ tmp # ys) None"
    and bl: "back_links ?R None (xs @ tmp # ys)"
    and d: "distinct (xs @ tmp # ys)"
    and so: "sorted (map ?B (xs @ tmp # ys))"
    and va: "list_all (\<lambda>a. valid_pool (pools s a)) (xs @ tmp # ys)"
    by (simp_all add: registry_def)
  from d have tx: "tmp \<notin> set xs" and ty: "tmp \<notin> set ys" by auto
  from p have p1: "path ?N (head s) xs (Some tmp)" and p2: "path ?N (?N tmp) ys None"
    by (auto simp: path_append)
  from bl have b1: "back_links ?R None xs"
    and b2: "?R tmp = (if xs = [] then None else Some (last xs))"
    and b3: "back_links ?R (Some tmp) ys"
    by (auto simp: back_links_append)
  have D: "distinct (xs @ this # tmp # ys)" using d fresh by auto
  have S0: "sorted (map ?B (xs @ this # tmp # ys))"
  proof -
    from ge have g: "?B this \<le> ?B tmp" by simp
    from so have "\<forall>y\<in>set ys. ?B tmp \<le> ?B y" by (auto simp: sorted_append)
    with g have "\<forall>y\<in>set (tmp # ys). ?B this \<le> ?B y" by auto
    with so lt show ?thesis
      by (auto simp: sorted_append less_imp_le intro: order_trans less_imp_le)
  qed
  show ?thesis
  proof (cases "xs = []")
    case True
    with b2 have pt: "?R tmp = None" by simp
    note f = insert_before_fields_head[OF ne pt]
    have "path ?N' (Some tmp) (tmp # ys) None = path ?N (Some tmp) (tmp # ys) None"
      by (rule path_cong) (use ne ny in \<open>auto simp: f\<close>)
    with p2 have P: "path ?N' (head ?s') (xs @ this # tmp # ys) None"
      using True by (simp add: f)
    have "back_links ?R' (Some tmp) ys = back_links ?R (Some tmp) ys"
      by (rule back_links_cong) (use ty ny in \<open>auto simp: f\<close>)
    with b3 have B: "back_links ?R' None (xs @ this # tmp # ys)"
      using True ne links by (simp add: f)
    have S: "sorted (map (\<lambda>a. base_frame_no (pools ?s' a)) (xs @ this # tmp # ys))"
      using S0 by (simp add: f)
    have V: "list_all (\<lambda>a. valid_pool (pools ?s' a)) (xs @ this # tmp # ys)"
      using va v by (simp add: valid_pool_nframes[OF f(4)])
    from P B D S V show ?thesis unfolding registry_def by blast
  next
    case False
    define pv where "pv = last xs"
    define xs' where "xs' = butlast xs"
    from False have xs: "xs = xs' @ [pv]" by (simp add: pv_def xs'_def)
    from b2 False have pt: "?R tmp = Some pv" by (simp add: pv_def)
    from xs nx tx have pn: "pv \<noteq> this" "pv \<noteq> tmp" by auto
    from d xs have px: "pv \<notin> set xs'" "pv \<notin> set ys" by auto
    note f = insert_before_fields_mid[OF ne pt pn]
    from p1 xs have q1: "path ?N (head s) xs' (Some pv)" and q2: "?N pv = Some tmp"
      by (auto simp: path_append)
    have "path ?N' (head s) xs' (Some pv) = path ?N (head s) xs' (Some pv)"
      by (rule path_cong) (use px nx xs in \<open>auto simp: f\<close>)
    moreover
    have "path ?N' (Some tmp) (tmp # ys) None = path ?N (Some tmp) (tmp # ys) None"
      by (rule path_cong) (use ne ny pn px in \<open>auto simp: f\<close>)
    ultimately have P: "path ?N' (head ?s') (xs @ this # tmp # ys) None"
      using q1 p2 pn ne by (simp add: xs path_append f)
    have "back_links ?R' None xs = back_links ?R None xs"
      by (rule back_links_cong) (use nx tx in \<open>auto simp: f\<close>)
    moreover
    have "back_links ?R' (Some tmp) ys = back_links ?R (Some tmp) ys"
      by (rule back_links_cong) (use ty ny in \<open>auto simp: f\<close>)
    ultimately have B: "back_links ?R' None (xs @ this # tmp # ys)"
      using b1 b3 ne False by (simp add: back_links_append f pv_def)
    have S: "sorted (map (\<lambda>a. base_frame_no (pools ?s' a)) (xs @ this # tmp # ys))"
      using S0 by (simp add: f)
    have V: "list_all (\<lambda>a. valid_pool (pools ?s' a)) (xs @ this # tmp # ys)"
      using va v by (simp add: valid_pool_nframes[OF f(4)])
    from P B D S V show ?thesis unfolding registry_def by blast
  qed
qed

lemma insert_pool_registry:
  assumes reg: "registry s ps" and fresh: "this \<notin> set ps"
    and links: "prev_pool (pools s this) = None" "next_pool (pools s this) = None"
    and v: "valid_pool (pools s this)"
  shows "\<exists>s' xs ys. insert_pool this s = Some s' \<and> ps = xs @ ys \<and>
           registry s' (xs @ this # ys)"
proof (cases ps)
  case Nil
  with reg have h: "head s = None" by (simp add: registry_def)
  then have e: "insert_pool this s = Some (s\<lparr>head := Some this\<rparr>)"
    by (simp add: insert_pool_def)
  have "registry (s\<lparr>head := Some this\<rparr>) ([] @ this # [])"
    using links v by (simp add: registry_def)
  with e Nil show ?thesis by blast
next
  case (Cons h as)
  with reg have hd: "head s = Some h"
    and p: "path (\<lambda>a. next_pool (pools s a)) (Some h) (h # as) None"
    by (simp_all add: registry_def)
  from find_position_path[OF p, of "base_frame_no (pools s this)"]
  obtain xs tmp ys where
    d: "h # as = xs @ tmp # ys"
    and f: "find_position (pools s) (base_frame_no (pools s this)) h = Some tmp"
    and l: "\<forall>z\<in>set xs. base_frame_no (pools s z) < base_frame_no (pools s this)"
    and e: "base_frame_no (pools s tmp) < base_frame_no (pools s this) \<longrightarrow> ys = []"
    by blast
  show ?thesis
  proof (cases "base_frame_no (pools s tmp) < base_frame_no (pools s this)")
    case True
    with e have ys: "ys = []" by simp
    from True hd f have i: "insert_pool this s = Some (insert_after this tmp s)"
      by (simp add: insert_pool_def)
    have "registry (insert_after this tmp s) (xs @ [tmp] @ [this])"
    proof (rule registry_insert_after)
      show "registry s (xs @ [tmp])" using reg Cons d ys by simp
      show "this \<notin> set (xs @ [tmp])" using fresh Cons d ys by simp
      show "\<forall>z\<in>set (xs @ [tmp]). base_frame_no (pools s z) < base_frame_no (pools s this)"
        using l True by simp
    qed (rule links(1), rule v)
    then have "registry (insert_after this tmp s) ((xs @ [tmp]) @ this # [])" by simp
    moreover have "ps = (xs @ [tmp]) @ []" using Cons d ys by simp
    ultimately show ?thesis using i by blast
  next
    case False
    with hd f have i: "insert_pool this s = Some (insert_before this tmp s)"
      by (simp add: insert_pool_def)
    have "registry (insert_before this tmp s) (xs @ this # tmp # ys)"
    proof (rule registry_insert_before)
      show "registry s (xs @ tmp # ys)" using reg Cons d by simp
      show "this \<notin> set (xs @ tmp # ys)" using fresh Cons d by simp
    qed (rule links(1), rule v, rule l, rule False)
    moreover have "ps = xs @ (tmp # ys)" using Cons d by simp
    ultimately show ?thesis using i by blast
  qed
qed

lemma registry_cong:
  assumes "head s' = head s"
    and "\<And>a. a \<in> set ps \<Longrightarrow>
          next_pool (pools s' a) = next_pool (pools s a) \<and>
          prev_pool (pools s' a) = prev_pool (pools s a) \<and>
          base_frame_no (pools s' a) = base_frame_no (pools s a) \<and>
          nframes (pools s' a) = nframes (pools s a)"
  shows "registry s' ps = registry s ps"
proof -
  have a: "path (\<lambda>a. next_pool (pools s' a)) (head s) ps None
        = path (\<lambda>a. next_pool (pools s a)) (head s) ps None"
    by (rule path_cong) (simp add: assms(2))
  have b: "back_links (\<lambda>a. prev_pool (pools s' a)) None ps
        = back_links (\<lambda>a. prev_pool (pools s a)) None ps"
    by (rule back_links_cong) (simp add: assms(2))
  have c: "map (\<lambda>a. base_frame_no (pools s' a)) ps
        = map (\<lambda>a. base_frame_no (pools s a)) ps"
    by (rule map_cong) (simp_all add: assms(2))
  have d: "list_all (\<lambda>a. valid_pool (pools s' a)) ps
        = list_all (\<lambda>a. valid_pool (pools s a)) ps"
    by (rule list.pred_cong) (simp_all add: assms(2) valid_pool_def)
  show ?thesis by (simp only: registry_def assms(1) a b c d)
qed

lemma ctor_registry_gen:
  assumes reg: "registry s ps" and fresh: "this \<notin> set ps"
    and v: "n \<le> FRAME_SIZE * 8 div 2" "needed_info_frames n = 1"
  shows "\<exists>s' xs ys. ContFramePool_ctor this b n info s = Some s' \<and> ps = xs @ ys \<and>
           registry s' (xs @ this # ys)"
proof -
  let ?s0 = "upd_pool this
     (\<lambda>c. c\<lparr>base_frame_no := b, nframes := n, info_frame_no := info,
            prev_pool := None, next_pool := None\<rparr>) s"
  have "registry ?s0 ps = registry s ps"
    by (rule registry_cong) (use fresh in \<open>auto simp: upd_pool_def\<close>)
  with reg have r0: "registry ?s0 ps" by simp
  have l: "prev_pool (pools ?s0 this) = None" "next_pool (pools ?s0 this) = None"
    by (simp_all add: upd_pool_def)
  have v0: "valid_pool (pools ?s0 this)" using v by (simp add: valid_pool_def upd_pool_def)
  from insert_pool_registry[OF r0 fresh l v0] obtain s1 xs ys where
    i: "insert_pool this ?s0 = Some s1" and d: "ps = xs @ ys"
    and r1: "registry s1 (xs @ this # ys)"
    by blast
  let ?s2 = "upd_pool this
     (\<lambda>c. c\<lparr>bitmap := (if info_frame_no c = 0 then base_frame_no c * FRAME_SIZE
                        else info_frame_no c * FRAME_SIZE)\<rparr>) s1"
  let ?s' = "?s2\<lparr>mem :=
        (if info = 0
         then set_state (pools ?s2 this) (init_bitmap (pools ?s2 this) (mem ?s2) n 0) 0 HoS
         else init_bitmap (pools ?s2 this) (mem ?s2) n 0),
      console := console ?s2 @ [''Frame Pool initialized'' @ [CHR 0x0A]]\<rparr>"
  from i v have c: "ContFramePool_ctor this b n info s = Some ?s'"
    by (simp add: ContFramePool_ctor_def Let_def)
  have "registry ?s' (xs @ this # ys) = registry s1 (xs @ this # ys)"
    by (rule registry_cong) (auto simp: upd_pool_def)
  with r1 have "registry ?s' (xs @ this # ys)" by simp
  with c d show ?thesis by blast
qed

lemma ctor_registry:
  assumes "registry s ps" "this \<notin> set ps" "ContFramePool_ctor this b n info s = Some s'"
  shows "\<exists>xs ys. ps = xs @ ys \<and> registry s' (xs @ this # ys)"
proof -
  from assms(3) have "n \<le> FRAME_SIZE * 8 div 2" "needed_info_frames n = 1"
    by (auto simp: ContFramePool_ctor_def split: if_splits)
  from ctor_registry_gen[OF assms(1,2) this, of b info] assms(3) show ?thesis by auto
qed

lemma ctor_total:
  assumes "registry s ps" "this \<notin> set ps" "1 \<le> unat n" "unat n \<le> 16384"
  shows "ContFramePool_ctor this b n info s = Some (the (ContFramePool_ctor this b n info s))"
proof -
  have "n \<le> FRAME_SIZE * 8 div 2" using assms by (simp add: FRAME_SIZE_def word_le_nat_alt)
  moreover have "needed_info_frames n = 1" using assms by (simp add: nif_one)
  ultimately show ?thesis using ctor_registry_gen[OF assms(1,2), of n b info] by auto
qed

lemma ctor_others:
  assumes "ContFramePool_ctor this b n info s = Some s'" "a \<noteq> this"
  shows "base_frame_no (pools s' a) = base_frame_no (pools s a)"
    "nframes (pools s' a) = nframes (pools s a)"
    "bitmap (pools s' a) = bitmap (pools s a)"
proof -
  let ?s0 = "upd_pool this
     (\<lambda>c. c\<lparr>base_frame_no := b, nframes := n, info_frame_no := info,
            prev_pool := None, next_pool := None\<rparr>) s"
  from assms(1) have v: "n \<le> FRAME_SIZE * 8 div 2" "needed_info_frames n = 1"
    by (auto simp: ContFramePool_ctor_def split: if_splits)
  from assms(1) v obtain s1 where s1: "insert_pool this ?s0 = Some s1"
    by (auto simp: ContFramePool_ctor_def Let_def split: option.splits)
  from assms(1) v s1 have p: "pools s' = pools (upd_pool this
     (\<lambda>c. c\<lparr>bitmap := (if info_frame_no c = 0 then base_frame_no c * FRAME_SIZE
                        else info_frame_no c * FRAME_SIZE)\<rparr>) s1)"
    by (auto simp: ContFramePool_ctor_def Let_def)
  note d = insert_pool_data[OF s1]
  show "base_frame_no (pools s' a) = base_frame_no (pools s a)"
    "nframes (pools s' a) = nframes (pools s a)"
    "bitmap (pools s' a) = bitmap (pools s a)"
    unfolding p using assms(2) d by (simp_all add: upd_pool_def)
qed

lemma built_registry:
  assumes "built s cs"
  shows "\<exists>ps. registry s ps \<and> set ps = fst ` set cs \<and>
           (\<forall>c\<in>set cs. base_frame_no (pools s (fst c)) = fst (snd c) \<and>
                         nframes (pools s (fst c)) = snd (snd c))"
  using assms
proof (induction rule: built.induct)
  case (boot s)
  then have "registry s []" by (simp add: registry_def)
  then show ?case by auto
next
  case (construct s cs this b n info s')
  then obtain ps where r: "registry s ps" and e: "set ps = fst ` set cs"
    and a: "\<forall>c\<in>set cs. base_frame_no (pools s (fst c)) = fst (snd c) \<and>
                         nframes (pools s (fst c)) = snd (snd c)"
    by blast
  from construct.hyps(2) e have fresh: "this \<notin> set ps" by simp
  from ctor_registry[OF r fresh construct.hyps(3)] obtain xs ys where
    d: "ps = xs @ ys" and r': "registry s' (xs @ this # ys)" by blast
  have s: "set (xs @ this # ys) = fst ` set ((this, b, n) # cs)" using d e by auto
  have "base_frame_no (pools s' (fst c)) = fst (snd c) \<and> nframes (pools s' (fst c)) = snd (snd c)"
    if "c \<in> set ((this, b, n) # cs)" for c
  proof (cases "c = (this, b, n)")
    case True
    then show ?thesis using ctor_result(1,2)[OF construct.hyps(3)] by simp
  next
    case False
    with that have c: "c \<in> set cs" by simp
    with construct.hyps(2) have "fst c \<noteq> this" by force
    from ctor_others(1,2)[OF construct.hyps(3) this] a c show ?thesis by simp
  qed
  with r' s show ?case by blast
next
  case (other s cs s')
  then obtain ps where r: "registry s ps" and e: "set ps = fst ` set cs"
    and a: "\<forall>c\<in>set cs. base_frame_no (pools s (fst c)) = fst (snd c) \<and>
                         nframes (pools s (fst c)) = snd (snd c)"
    by blast
  have "registry s' ps = registry s ps"
    by (rule registry_cong) (simp_all add: other.hyps)
  with r e a other.hyps show ?case by auto
qed

text \<open>
  C6 (amended). After any sequence of constructions at fresh object addresses, with any
  other allocator calls in between, the \<open>next\<close> pointers from \<open>head\<close> run through exactly the
  constructed pools, each once, in ascending order of \<open>base_frame_no\<close> (equal bases are
  possible); and the frame ranges of the pools are pairwise disjoint whenever the ranges
  passed to the constructor were: the constructor does not look at the ranges of the
  other pools.
\<close>

theorem registry_after_constructions:
  assumes "built s cs"
  shows "\<exists>ps. path (\<lambda>a. next_pool (pools s a)) (head s) ps None \<and>
           set ps = fst ` set cs \<and> distinct ps \<and>
           sorted (map (\<lambda>a. base_frame_no (pools s a)) ps) \<and>
           ((\<forall>x\<in>set cs. \<forall>y\<in>set cs. x \<noteq> y \<longrightarrow> arg_frames x \<inter> arg_frames y = {}) \<longrightarrow>
            (\<forall>a\<in>set ps. \<forall>a'\<in>set ps. a \<noteq> a' \<longrightarrow>
               frames_of (pools s a) \<inter> frames_of (pools s a') = {}))"
proof -
  from built_registry[OF assms] obtain ps where r: "registry s ps"
    and e: "set ps = fst ` set cs"
    and a: "\<forall>c\<in>set cs. base_frame_no (pools s (fst c)) = fst (snd c) \<and>
                         nframes (pools s (fst c)) = snd (snd c)"
    by blast
  have f: "frames_of (pools s (fst c)) = arg_frames c" if "c \<in> set cs" for c
    using a that by (cases c) (auto simp: frames_of_def arg_frames_def)
  have "frames_of (pools s x) \<inter> frames_of (pools s y) = {}"
    if d: "\<forall>x\<in>set cs. \<forall>y\<in>set cs. x \<noteq> y \<longrightarrow> arg_frames x \<inter> arg_frames y = {}"
      and x: "x \<in> set ps" and y: "y \<in> set ps" and n: "x \<noteq> y" for x y
  proof -
    from x y e obtain c c' where c: "c \<in> set cs" "fst c = x" "c' \<in> set cs" "fst c' = y"
      by auto
    with n have "c \<noteq> c'" by auto
    with d c have "arg_frames c \<inter> arg_frames c' = {}" by blast
    with f[OF c(1)] f[OF c(3)] c show ?thesis by simp
  qed
  with r e show ?thesis unfolding registry_def by blast
qed

lemma built_external: "built external_kernel [(0, 1024, 8)]"
proof -
  have "built boot_kernel []" by (rule built.boot) (simp add: boot_kernel_def)
  moreover have "ContFramePool_ctor 0 1024 8 600 boot_kernel = Some external_kernel"
    unfolding external_kernel_def by (rule the_ctor_boot) simp_all
  ultimately show ?thesis using built.construct[of boot_kernel "[]" 0 1024 8 600] by simp
qed

lemma ctor_on_external:
  assumes "1 \<le> unat n" "unat n \<le> 16384"
  shows "ContFramePool_ctor 1 b n info external_kernel
           = Some (the (ContFramePool_ctor 1 b n info external_kernel))"
proof -
  from built_registry[OF built_external] obtain ps where
    "registry external_kernel ps" "set ps = {0}" by auto
  then show ?thesis using assms by (intro ctor_total[of _ ps]) auto
qed

theorem registry_after_constructions_witness:
  "built disjoint_kernel [(1, 512, 8), (0, 1024, 8)] \<and>
   arg_frames (1, 512, 8) \<inter> arg_frames (0, 1024, 8) = {} \<and>
   (\<exists>ps. path (\<lambda>a. next_pool (pools disjoint_kernel a)) (head disjoint_kernel) ps None \<and>
      set ps = {0, 1} \<and> distinct ps \<and>
      sorted (map (\<lambda>a. base_frame_no (pools disjoint_kernel a)) ps) \<and>
      (\<forall>a\<in>set ps. \<forall>a'\<in>set ps. a \<noteq> a' \<longrightarrow>
         frames_of (pools disjoint_kernel a) \<inter> frames_of (pools disjoint_kernel a') = {}))"
proof -
  have c: "ContFramePool_ctor 1 512 8 0 external_kernel = Some disjoint_kernel"
    unfolding disjoint_kernel_def by (rule ctor_on_external) simp_all
  from built.construct[OF built_external _ c]
  have b: "built disjoint_kernel [(1, 512, 8), (0, 1024, 8)]" by simp
  have d: "arg_frames (1, 512, 8) \<inter> arg_frames (0, 1024, 8) = {}"
    by (simp add: arg_frames_def)
  then have d': "arg_frames (0, 1024, 8) \<inter> arg_frames (1, 512, 8) = {}" by blast
  have "\<forall>x\<in>set [(1, 512, 8), (0, 1024, 8)]. \<forall>y\<in>set [(1, 512, 8), (0, 1024, 8)].
          x \<noteq> y \<longrightarrow> arg_frames x \<inter> arg_frames y = {}"
    using d d' by simp
  with registry_after_constructions[OF b] b d show ?thesis by auto
qed

text \<open>
  The claim as the spec states it fails: the constructor accepts a pool whose range
  overlaps that of a registered pool. After pools over the frames 1024 to 1031 and 1028
  to 1035 have been constructed, both are in the list and frame 1030 belongs to both.
\<close>

theorem registry_after_constructions_counterexample:
  "ContFramePool_ctor 0 1024 8 600 boot_kernel = Some external_kernel \<and>
   ContFramePool_ctor 1 1028 8 601 external_kernel = Some overlap_kernel \<and>
   head overlap_kernel = Some 0 \<and>
   next_pool (pools overlap_kernel 0) = Some 1 \<and>
   next_pool (pools overlap_kernel 1) = None \<and>
   1030 \<in> frames_of (pools overlap_kernel 0) \<and>
   1030 \<in> frames_of (pools overlap_kernel 1)"
proof -
  have a: "ContFramePool_ctor 0 1024 8 600 boot_kernel = Some external_kernel"
    unfolding external_kernel_def by (rule the_ctor_boot) simp_all
  have b: "ContFramePool_ctor 1 1028 8 601 external_kernel = Some overlap_kernel"
    unfolding overlap_kernel_def by (rule ctor_on_external) simp_all
  have c: "head overlap_kernel = Some 0" "next_pool (pools overlap_kernel 0) = Some 1"
    "next_pool (pools overlap_kernel 1) = None"
    by code_simp+
  have d: "1030 \<in> frames_of (pools overlap_kernel 0)"
    "1030 \<in> frames_of (pools overlap_kernel 1)"
    using ctor_result(1,2)[OF b] ctor_others(1,2)[OF b, of 0] ctor_result(1,2)[OF a]
    by (simp_all add: frames_of_def)
  from a b c d show ?thesis by blast
qed

section \<open>Static release\<close>

lemma release_walk_route:
  assumes "path (\<lambda>a. next_pool (pools s a)) x ps None"
  shows "release_walk s f x =
     Some (case route (pools s) f ps of
             None \<Rightarrow> s
           | Some a \<Rightarrow> release_in_pool (pools s a) (f - base_frame_no (pools s a)) s)"
  using assms
proof (induction ps arbitrary: x)
  case Nil
  then have "x = None" by simp
  then show ?case by (subst release_walk.simps) simp
next
  case (Cons a as)
  then have x: "x = Some a" and p: "path (\<lambda>a. next_pool (pools s a)) (next_pool (pools s a)) as None"
    by simp_all
  show ?case
    unfolding x by (subst release_walk.simps) (simp add: Cons.IH[OF p])
qed

lemma route_Some:
  "route P f ps = Some a \<Longrightarrow>
     a \<in> set ps \<and> base_frame_no (P a) \<le> f \<and> f \<le> base_frame_no (P a) + nframes (P a) - 1"
  by (induction ps) (auto split: if_splits)

lemma code_range:
  assumes v: "valid_pool p" and l: "base_frame_no p \<le> f"
    and u: "f \<le> base_frame_no p + nframes p - 1"
  shows "unat f \<in> frames_of p" "unat (f - base_frame_no p) = unat f - unat (base_frame_no p)"
proof -
  let ?B = "unat (base_frame_no p)" and ?N = "unat (nframes p)"
  note b = valid_pool_bounds[OF v]
  from l have l': "?B \<le> unat f" by (simp add: word_le_nat_alt)
  have a: "base_frame_no p + nframes p - 1 = base_frame_no p + (nframes p - 1)" by simp
  have n1: "unat (nframes p - 1) = ?N - 1" using b(1) by (simp add: unat_sub word_le_nat_alt)
  have "unat f < ?B + ?N"
  proof (cases "?B + (?N - 1) < 4294967296")
    case True
    then have "unat (base_frame_no p + (nframes p - 1)) = ?B + (?N - 1)"
      using n1 unat_plus[of "base_frame_no p" "nframes p - 1"] by simp
    with u a have "unat f \<le> ?B + (?N - 1)" by (simp add: word_le_nat_alt)
    with b(1) show ?thesis by arith
  next
    case False
    have "unat (base_frame_no p + (nframes p - 1)) = (?B + (?N - 1)) mod 4294967296"
      by (simp add: unat_word_ariths n1)
    also have "\<dots> = ?B + (?N - 1) - 4294967296"
      using False unat_lt32[of "base_frame_no p"] b(2)
      by (simp add: mod_if)
    finally have "unat (base_frame_no p + (nframes p - 1)) < ?B"
      using False b unat_lt32[of "base_frame_no p"] by arith
    with u a have "unat f < ?B" by (simp add: word_le_nat_alt)
    with l' show ?thesis by simp
  qed
  with l' show "unat f \<in> frames_of p" by (simp add: frames_of_def)
  show "unat (f - base_frame_no p) = unat f - ?B" using l by (simp add: unat_sub)
qed

lemma set_state_elsewhere:
  "x \<noteq> bitmap p + k div 4 \<Longrightarrow> set_state p m k st x = m x"
  by (simp add: set_state_alt)

lemma byte_in_bitmap:
  assumes "unat k < unat (nframes p)"
  shows "bitmap p + k div 4 \<in> bitmap_bytes p"
proof -
  have "unat (k div 4) = unat k div 4" by (simp add: unat_div)
  moreover have "unat (of_nat (unat k div 4) :: u32) = unat k div 4"
    by (rule unat_of_nat32) (use unat_lt32[of k] in arith)
  ultimately have e: "k div 4 = of_nat (unat k div 4)" by (simp add: word_unat_eq_iff)
  have "unat k div 4 < (unat (nframes p) + 3) div 4" using assms by arith
  then have "bitmap p + of_nat (unat k div 4) \<in> bitmap_bytes p"
    unfolding bitmap_bytes_def by (intro imageI) simp
  with e show ?thesis by simp
qed

lemma release_loop_elsewhere:
  assumes "x \<notin> bitmap_bytes p"
  shows "release_loop p m fno x = m x"
  using assms
proof (induction p m fno rule: release_loop.induct)
  case (1 p m fno)
  show ?case
  proof (cases "fno < nframes p \<and> get_state p m fno = Used")
    case False
    then show ?thesis by (subst release_loop.simps) auto
  next
    case True
    then have "unat fno < unat (nframes p)" by (simp add: word_less_nat_alt)
    from byte_in_bitmap[OF this] "1.prems" have "x \<noteq> bitmap p + fno div 4" by blast
    then have "set_state p m fno Free x = m x" by (rule set_state_elsewhere)
    with True "1.IH"[OF True "1.prems"] show ?thesis
      by (subst release_loop.simps) simp
  qed
qed

lemma release_in_pool_elsewhere:
  assumes "unat rel < unat (nframes p)" "x \<notin> bitmap_bytes p"
  shows "mem (release_in_pool p rel s) x = mem s x"
proof -
  from byte_in_bitmap[OF assms(1)] assms(2) have "x \<noteq> bitmap p + rel div 4" by blast
  then have "set_state p (mem s) rel Free x = mem s x" by (rule set_state_elsewhere)
  then show ?thesis
    by (simp add: release_in_pool_def release_loop_elsewhere[OF assms(2)])
qed

lemma release_in_pool_registry:
  "head (release_in_pool p rel s) = head s" "pools (release_in_pool p rel s) = pools s"
  by (simp_all add: release_in_pool_def)

lemma frame_state_bytes:
  assumes "\<And>x. x \<in> bitmap_bytes q \<Longrightarrow> m' x = m x" "k < unat (nframes q)"
  shows "frame_state q m' k = frame_state q m k"
proof -
  have "k < 4294967296" using assms(2) unat_lt32[of "nframes q"] by arith
  then have "unat (of_nat k :: u32) = k" by (rule unat_of_nat32)
  with assms(2) have "bitmap q + (of_nat k :: u32) div 4 \<in> bitmap_bytes q"
    by (intro byte_in_bitmap) simp
  from assms(1)[OF this] show ?thesis
    by (simp add: frame_state_def get_state_def)
qed

text \<open>
  C7 (amended). On a well-formed registry, \<open>release_frames(f)\<close> returns and leaves \<open>head\<close>
  and every pool object as they were. If no pool's range contains \<open>f\<close>, the whole state
  is unchanged. Otherwise either nothing changes, or there is one registered pool whose
  range contains \<open>f\<close> such that memory changes only inside that pool's bitmap bytes;
  then every pool whose bitmap bytes are disjoint from those reads the same state for
  each of its frames as before.
\<close>

theorem release_frames_one_pool:
  assumes "registry s ps"
  shows "\<exists>s'. release_frames f s = Some s' \<and> head s' = head s \<and> pools s' = pools s \<and>
     ((\<forall>a\<in>set ps. unat f \<notin> frames_of (pools s a)) \<longrightarrow> s' = s) \<and>
     (s' = s \<or>
      (\<exists>a\<in>set ps. unat f \<in> frames_of (pools s a) \<and>
         (\<forall>x. x \<notin> bitmap_bytes (pools s a) \<longrightarrow> mem s' x = mem s x) \<and>
         (\<forall>q\<in>set ps. bitmap_bytes (pools s q) \<inter> bitmap_bytes (pools s a) = {} \<longrightarrow>
            (\<forall>k<unat (nframes (pools s q)).
               frame_state (pools s q) (mem s') k = frame_state (pools s q) (mem s) k))))"
proof -
  from assms have p: "path (\<lambda>a. next_pool (pools s a)) (head s) ps None"
    and v: "\<forall>a\<in>set ps. valid_pool (pools s a)"
    by (simp_all add: registry_def list_all_iff)
  note w = release_walk_route[OF p, of f, folded release_frames_def]
  show ?thesis
  proof (cases "route (pools s) f ps")
    case None
    with w show ?thesis by simp
  next
    case (Some a)
    let ?p = "pools s a"
    let ?s' = "release_in_pool ?p (f - base_frame_no ?p) s"
    from route_Some[OF Some] have a: "a \<in> set ps" and l: "base_frame_no ?p \<le> f"
      and u: "f \<le> base_frame_no ?p + nframes ?p - 1"
      by simp_all
    from v a have va: "valid_pool ?p" by blast
    note r = code_range[OF va l u]
    from r have rel: "unat (f - base_frame_no ?p) < unat (nframes ?p)"
      by (auto simp: frames_of_def)
    have e: "release_frames f s = Some ?s'" using w Some by simp
    have fr: "mem ?s' x = mem s x" if "x \<notin> bitmap_bytes ?p" for x
      using rel that by (rule release_in_pool_elsewhere)
    have ot: "frame_state (pools s q) (mem ?s') k = frame_state (pools s q) (mem s) k"
      if "bitmap_bytes (pools s q) \<inter> bitmap_bytes ?p = {}" "k < unat (nframes (pools s q))"
      for q k
    proof (rule frame_state_bytes)
      fix x assume "x \<in> bitmap_bytes (pools s q)"
      with that(1) have "x \<notin> bitmap_bytes ?p" by blast
      then show "mem ?s' x = mem s x" by (rule fr)
    qed (rule that(2))
    have "\<not> (\<forall>a\<in>set ps. unat f \<notin> frames_of (pools s a))" using a r(1) by blast
    with e a r(1) fr ot show ?thesis
      by (auto simp: release_in_pool_registry)
  qed
qed

lemma returns_the: "returns x \<Longrightarrow> x = Some (the x)"
  by (cases x) (simp_all add: returns_def)

lemma registry_disjoint_kernel: "registry disjoint_kernel [1, 0]"
  by code_simp

theorem release_frames_one_pool_witness:
  "registry disjoint_kernel [1, 0] \<and>
   (\<exists>s'. release_frames 512 disjoint_kernel = Some s' \<and>
      head s' = head disjoint_kernel \<and> pools s' = pools disjoint_kernel \<and>
      (s' = disjoint_kernel \<or>
       (\<exists>a\<in>set [1, 0]. unat (512::u32) \<in> frames_of (pools disjoint_kernel a) \<and>
          (\<forall>x. x \<notin> bitmap_bytes (pools disjoint_kernel a) \<longrightarrow>
             mem s' x = mem disjoint_kernel x) \<and>
          (\<forall>q\<in>set [1, 0].
             bitmap_bytes (pools disjoint_kernel q) \<inter> bitmap_bytes (pools disjoint_kernel a) = {}
             \<longrightarrow> (\<forall>k<unat (nframes (pools disjoint_kernel q)).
                    frame_state (pools disjoint_kernel q) (mem s') k
                      = frame_state (pools disjoint_kernel q) (mem disjoint_kernel) k)))))"
  using release_frames_one_pool[OF registry_disjoint_kernel, of 512]
    registry_disjoint_kernel
  by blast

text \<open>
  The claim as the spec states it fails when two pools keep their bitmaps in the same
  info frame, which the constructor accepts. A frame allocated from the pool at base 512
  and released again changes what the pool at base 1024 reads for its own frame 0,
  although frame 512 is outside that pool's range.
\<close>

theorem release_frames_one_pool_counterexample:
  "ContFramePool_ctor 0 512 8 600 boot_kernel = Some shared_kernel1 \<and>
   ContFramePool_ctor 1 1024 8 600 shared_kernel1 = Some shared_kernel2 \<and>
   get_frames (pools shared_kernel2 0) (mem shared_kernel2) 1
     = Some (512, mem shared_kernel3) \<and>
   release_frames 512 shared_kernel3 = Some shared_kernel4 \<and>
   unat (512::u32) \<in> frames_of (pools shared_kernel3 0) \<and>
   unat (512::u32) \<notin> frames_of (pools shared_kernel3 1) \<and>
   frame_state (pools shared_kernel3 1) (mem shared_kernel3) 0 = HoS \<and>
   frame_state (pools shared_kernel4 1) (mem shared_kernel4) 0 = Free"
proof -
  have a: "ContFramePool_ctor 0 512 8 600 boot_kernel = Some shared_kernel1"
    unfolding shared_kernel1_def by (rule returns_the) code_simp
  have b: "ContFramePool_ctor 1 1024 8 600 shared_kernel1 = Some shared_kernel2"
    unfolding shared_kernel2_def by (rule returns_the) code_simp
  have "returns (get_frames (pools shared_kernel2 0) (mem shared_kernel2) 1)"
    by code_simp
  from returns_the[OF this]
  have "get_frames (pools shared_kernel2 0) (mem shared_kernel2) 1
     = Some (fst (the (get_frames (pools shared_kernel2 0) (mem shared_kernel2) 1)),
             mem shared_kernel3)"
    by (simp add: shared_kernel3_def)
  moreover have "fst (the (get_frames (pools shared_kernel2 0) (mem shared_kernel2) 1)) = 512"
    by code_simp
  ultimately have c: "get_frames (pools shared_kernel2 0) (mem shared_kernel2) 1
     = Some (512, mem shared_kernel3)"
    by simp
  have d: "release_frames 512 shared_kernel3 = Some shared_kernel4"
    unfolding shared_kernel4_def by (rule returns_the) code_simp
  have e: "unat (512::u32) \<in> frames_of (pools shared_kernel3 0)"
    "unat (512::u32) \<notin> frames_of (pools shared_kernel3 1)"
    "frame_state (pools shared_kernel3 1) (mem shared_kernel3) 0 = HoS"
    "frame_state (pools shared_kernel4 1) (mem shared_kernel4) 0 = Free"
    by code_simp+
  from a b c d e show ?thesis by blast
qed

section \<open>Marking and releasing\<close>

lemma route_owner:
  assumes "sorted (map (\<lambda>a. base_frame_no (P a)) ps)"
    and "\<forall>q\<in>set ps. valid_pool (P q)"
    and "a \<in> set ps"
    and "\<forall>q\<in>set ps. q \<noteq> a \<longrightarrow> frames_of (P q) \<inter> frames_of (P a) = {}"
    and "unat f \<in> frames_of (P a)"
    and "unat (base_frame_no (P a)) + unat (nframes (P a)) \<le> 4294967296"
  shows "route P f ps = Some a"
  using assms(1-4)
proof (induction ps)
  case Nil
  then show ?case by simp
next
  case (Cons t ts)
  let ?B = "unat (base_frame_no (P a))" and ?N = "unat (nframes (P a))"
  from assms(5) have F: "?B \<le> unat f" "unat f < ?B + ?N" by (simp_all add: frames_of_def)
  then have l: "base_frame_no (P a) \<le> f" by (simp add: word_le_nat_alt)
  show ?case
  proof (cases "t = a")
    case True
    have n1: "unat (nframes (P a) - 1) = ?N - 1"
      using F by (simp add: unat_sub word_le_nat_alt Suc_leI unat_gt_0[symmetric] not_less)
    have "?B + (?N - 1) < 4294967296" using assms(6) F by arith
    then have "unat (base_frame_no (P a) + (nframes (P a) - 1)) = ?B + (?N - 1)"
      using n1 unat_plus[of "base_frame_no (P a)" "nframes (P a) - 1"] by simp
    then have "unat f \<le> unat (base_frame_no (P a) + (nframes (P a) - 1))"
      using F by arith
    then have "f \<le> base_frame_no (P a) + (nframes (P a) - 1)"
      by (simp only: word_le_nat_alt)
    moreover have "base_frame_no (P a) + nframes (P a) - 1
        = base_frame_no (P a) + (nframes (P a) - 1)" by simp
    ultimately have "f \<le> base_frame_no (P a) + nframes (P a) - 1"
      by (simp only:)
    with True l show ?thesis by simp
  next
    case False
    with Cons.prems have a: "a \<in> set ts" by simp
    from Cons.prems(1) a have "base_frame_no (P t) \<le> base_frame_no (P a)" by auto
    with l have lt: "base_frame_no (P t) \<le> f" by simp
    have "\<not> f \<le> base_frame_no (P t) + nframes (P t) - 1"
    proof
      assume "f \<le> base_frame_no (P t) + nframes (P t) - 1"
      with lt Cons.prems(2) have "unat f \<in> frames_of (P t)" by (intro code_range(1)) simp_all
      with assms(5) False Cons.prems(4) show False by auto
    qed
    moreover have "route P f ts = Some a"
      using Cons.prems a by (intro Cons.IH) auto
    ultimately show ?thesis using lt by simp
  qed
qed

lemma registry_mem:
  "registry (s\<lparr>mem := m\<rparr>) ps = registry s ps"
  by (simp add: registry_def)

lemma release_frames_routed:
  assumes "registry s ps" "route (pools s) f ps = Some a"
  shows "release_frames f s
           = Some (release_in_pool (pools s a) (f - base_frame_no (pools s a)) s)"
proof -
  from assms(1) have "path (\<lambda>a. next_pool (pools s a)) (head s) ps None"
    by (simp add: registry_def)
  from release_walk_route[OF this, of f] assms(2) show ?thesis
    by (simp add: release_frames_def)
qed

lemma registry_route_owner:
  assumes "registry s ps" "a \<in> set ps"
    and "\<forall>q\<in>set ps. q \<noteq> a \<longrightarrow> frames_of (pools s q) \<inter> frames_of (pools s a) = {}"
    and "unat f \<in> frames_of (pools s a)"
    and "unat (base_frame_no (pools s a)) + unat (nframes (pools s a)) \<le> 4294967296"
  shows "route (pools s) f ps = Some a"
  using assms by (intro route_owner) (simp_all add: registry_def list_all_iff)

lemma mark_then_release_frames:
  assumes v: "valid_pool p" and n: "1 \<le> unat n"
    and r: "unat b + unat n \<le> unat (nframes p)"
    and j: "unat b \<le> j" "j < unat b + unat n"
  shows "frame_state p
           (mem (release_in_pool p b (s\<lparr>mem := mark_inaccessible p (mem s) b n\<rparr>))) j = Free"
proof -
  let ?m1 = "mark_inaccessible p (mem s) b n"
  let ?s1 = "s\<lparr>mem := ?m1\<rparr>"
  note bd = valid_pool_bounds[OF v]
  have bn: "unat b + unat n \<le> 4294967296" using r bd by arith
  have st: "frame_state p ?m1 i =
      (if i = unat b then HoS else if unat b < i \<and> i < unat b + unat n then Used
       else frame_state p (mem s) i)" if "i < 4294967296" for i
    using mark_inaccessible_state[OF bn that] .
  have k: "unat b < unat (nframes p)" using n r by arith
  have hd: "frame_state p (mem ?s1) (unat b) = HoS"
    using st[of "unat b"] unat_lt32[of b] by simp
  have jn: "j < unat (nframes p)" using j r by arith
  have ob: "(of_nat (unat b) :: u32) = b" by simp
  from release_in_pool_frames[OF k, of ?s1] hd jn
  have e: "frame_state p (mem (release_in_pool p b ?s1)) j =
      (if j = unat b \<or> in_run p (mem ?s1) (unat b) j then Free
       else frame_state p (mem ?s1) j)"
    by (simp add: ob)
  show ?thesis
  proof (cases "j = unat b")
    case True
    with e show ?thesis by simp
  next
    case False
    have "frame_state p ?m1 i = Used" if "unat b + 1 \<le> i \<and> i \<le> j" for i
    proof -
      from that j bn have "i < 4294967296" by arith
      from st[OF this] that j show ?thesis by simp
    qed
    with False j jn have "in_run p (mem ?s1) (unat b) j" by (simp add: in_run_iff)
    with e show ?thesis by simp
  qed
qed

text \<open>
  C9 (amended). For a registered pool whose frame range overlaps no other registered
  pool's range and does not run past \<open>2^32\<close>, for every \<open>b\<close> and \<open>n \<ge> 1\<close> with
  \<open>b + n \<le> n_frames\<close> and from any memory contents: \<open>mark_inaccessible(b, n)\<close> followed
  by \<open>release_frames(b + base_frame_no)\<close> returns and leaves the frames
  \<open>b, \<dots>, b + n - 1\<close> all \<open>Free\<close>.
\<close>

theorem mark_inaccessible_then_release:
  assumes "registry s ps" and "a \<in> set ps"
    and "\<forall>q\<in>set ps. q \<noteq> a \<longrightarrow> frames_of (pools s q) \<inter> frames_of (pools s a) = {}"
    and "unat (base_frame_no (pools s a)) + unat (nframes (pools s a)) \<le> 4294967296"
    and "1 \<le> unat n" and "unat b + unat n \<le> unat (nframes (pools s a))"
  shows "\<exists>s'. release_frames (b + base_frame_no (pools s a))
                 (s\<lparr>mem := mark_inaccessible (pools s a) (mem s) b n\<rparr>) = Some s' \<and>
               (\<forall>j. unat b \<le> j \<and> j < unat b + unat n \<longrightarrow>
                    frame_state (pools s a) (mem s') j = Free)"
proof -
  let ?p = "pools s a"
  let ?s1 = "s\<lparr>mem := mark_inaccessible ?p (mem s) b n\<rparr>"
  let ?f = "b + base_frame_no ?p"
  from assms(1,2) have v: "valid_pool ?p" by (simp add: registry_def list_all_iff)
  have r1: "registry ?s1 ps" using assms(1) by (simp add: registry_mem)
  have "unat b + unat (base_frame_no ?p) < 4294967296" using assms(4,5,6) by arith
  then have uf: "unat ?f = unat b + unat (base_frame_no ?p)" by (rule unat_plus)
  then have fr: "unat ?f \<in> frames_of (pools ?s1 a)"
    using assms(5,6) by (simp add: frames_of_def)
  have "route (pools ?s1) ?f ps = Some a"
    using r1 assms(2) _ fr by (rule registry_route_owner) (use assms(3,4) in simp_all)
  from release_frames_routed[OF r1 this]
  have e: "release_frames ?f ?s1 = Some (release_in_pool ?p b ?s1)" by simp
  have "frame_state ?p (mem (release_in_pool ?p b ?s1)) j = Free"
    if "unat b \<le> j \<and> j < unat b + unat n" for j
    using mark_then_release_frames[OF v assms(5,6), of j s] that by simp
  with e show ?thesis by blast
qed

lemma disjoint_kernel_fields:
  "base_frame_no (pools disjoint_kernel 0) = 1024" "nframes (pools disjoint_kernel 0) = 8"
  "base_frame_no (pools disjoint_kernel 1) = 512" "nframes (pools disjoint_kernel 1) = 8"
  by code_simp+

theorem mark_inaccessible_then_release_witness:
  "registry disjoint_kernel [1, 0] \<and> (0::nat) \<in> set [1, 0] \<and>
   frames_of (pools disjoint_kernel 1) \<inter> frames_of (pools disjoint_kernel 0) = {} \<and>
   unat (base_frame_no (pools disjoint_kernel 0)) + unat (nframes (pools disjoint_kernel 0))
     \<le> 4294967296 \<and>
   1 \<le> unat (3::u32) \<and>
   unat (2::u32) + unat (3::u32) \<le> unat (nframes (pools disjoint_kernel 0)) \<and>
   (\<exists>s'. release_frames (2 + base_frame_no (pools disjoint_kernel 0)) marked_kernel = Some s' \<and>
      frame_state (pools disjoint_kernel 0) (mem s') 2 = Free \<and>
      frame_state (pools disjoint_kernel 0) (mem s') 3 = Free \<and>
      frame_state (pools disjoint_kernel 0) (mem s') 4 = Free)"
proof -
  note f = disjoint_kernel_fields
  have d: "frames_of (pools disjoint_kernel 1) \<inter> frames_of (pools disjoint_kernel 0) = {}"
    using f by (simp add: frames_of_def)
  then have d': "\<forall>q\<in>set [1, 0]. q \<noteq> 0 \<longrightarrow>
      frames_of (pools disjoint_kernel q) \<inter> frames_of (pools disjoint_kernel 0) = {}"
    by simp
  have a: "(0::nat) \<in> set [1, 0]" by simp
  have w: "unat (base_frame_no (pools disjoint_kernel 0))
      + unat (nframes (pools disjoint_kernel 0)) \<le> 4294967296"
    by (simp add: f)
  have n: "1 \<le> unat (3::u32)"
    and r: "unat (2::u32) + unat (3::u32) \<le> unat (nframes (pools disjoint_kernel 0))"
    by (simp_all add: f)
  from mark_inaccessible_then_release[OF registry_disjoint_kernel a d' w n r]
  obtain s' where
    e: "release_frames (2 + base_frame_no (pools disjoint_kernel 0)) marked_kernel = Some s'"
    and g: "\<forall>j. unat (2::u32) \<le> j \<and> j < unat (2::u32) + unat (3::u32) \<longrightarrow>
               frame_state (pools disjoint_kernel 0) (mem s') j = Free"
    unfolding marked_kernel_def by blast
  from g have "frame_state (pools disjoint_kernel 0) (mem s') 2 = Free"
    "frame_state (pools disjoint_kernel 0) (mem s') 3 = Free"
    "frame_state (pools disjoint_kernel 0) (mem s') 4 = Free"
    by simp_all
  with registry_disjoint_kernel a d w n r e show ?thesis by blast
qed

text \<open>
  The claim as the spec states it fails for a pool whose range overlaps that of a pool
  earlier in the registry: \<open>release_frames\<close> hands the frame to the earlier pool, where it
  is not a head of sequence, and the frames marked in the later pool stay allocated.
\<close>

theorem mark_inaccessible_then_release_counterexample:
  "nframes (pools overlap_kernel 1) = 8 \<and>
   release_frames (0 + base_frame_no (pools overlap_kernel 1)) overlap_marked
     = Some overlap_released \<and>
   frame_state (pools overlap_kernel 1) (mem overlap_released) 0 = HoS \<and>
   frame_state (pools overlap_kernel 1) (mem overlap_released) 1 = Used"
proof -
  have a: "nframes (pools overlap_kernel 1) = 8" by code_simp
  have b: "release_frames (0 + base_frame_no (pools overlap_kernel 1)) overlap_marked
     = Some overlap_released"
    unfolding overlap_released_def by (rule returns_the) code_simp
  have c: "frame_state (pools overlap_kernel 1) (mem overlap_released) 0 = HoS"
    "frame_state (pools overlap_kernel 1) (mem overlap_released) 1 = Used"
    by code_simp+
  from a b c show ?thesis by blast
qed

section \<open>The effect of a release\<close>

lemma run_kernel_registry: "registry run_kernel [1, 0]"
  using registry_disjoint_kernel by (simp add: run_kernel_def registry_mem)

lemma run_kernel_fields:
  "base_frame_no (pools run_kernel 0) = 1024" "nframes (pools run_kernel 0) = 8"
  "base_frame_no (pools run_kernel 1) = 512" "nframes (pools run_kernel 1) = 8"
  using disjoint_kernel_fields by (simp_all add: run_kernel_def)

lemma run_kernel_states:
  "get_state (pools run_kernel 0) (mem run_kernel) 0 = Free"
  "get_state (pools run_kernel 0) (mem run_kernel) 1 = HoS"
  "get_state (pools run_kernel 0) (mem run_kernel) 2 = Used"
  "get_state (pools run_kernel 0) (mem run_kernel) 3 = Used"
  "get_state (pools run_kernel 0) (mem run_kernel) 4 = HoS"
  "get_state (pools run_kernel 0) (mem run_kernel) 5 = Used"
  by code_simp+

lemma run_kernel_runs:
  "\<not> in_run (pools run_kernel 0) (mem run_kernel) (unat (1::u32)) (unat (0::u32))"
  "in_run (pools run_kernel 0) (mem run_kernel) (unat (1::u32)) (unat (2::u32))"
  "in_run (pools run_kernel 0) (mem run_kernel) (unat (1::u32)) (unat (3::u32))"
  "\<not> in_run (pools run_kernel 0) (mem run_kernel) (unat (1::u32)) (unat (4::u32))"
  "\<not> in_run (pools run_kernel 0) (mem run_kernel) (unat (1::u32)) (unat (5::u32))"
  "\<not> in_run (pools run_kernel 0) (mem run_kernel) (unat (1::u32)) (unat (8::u32))"
  by code_simp+

lemma run_kernel_outside: "0x200000 \<notin> bitmap_bytes (pools run_kernel 0)"
  by code_simp

text \<open>
  C2 (amended). For a registered pool whose frame range overlaps no other registered
  pool's range and does not run past \<open>2^32\<close>, and a relative frame \<open>k < n_frames\<close>:
  \<open>release_frames(k + base_frame_no)\<close> returns and leaves \<open>head\<close> and every pool object
  as they were. If frame \<open>k\<close> is a head of sequence, afterwards a frame \<open>j\<close> reads \<open>Free\<close>
  when it is \<open>k\<close> or when it lies inside the pool and every frame from \<open>k + 1\<close> to \<open>j\<close>
  read \<open>Used\<close> before (so the freeing stops at the first frame after \<open>k\<close> that is \<open>Free\<close>
  or \<open>HoS\<close>, or at the end of the pool); the two-bit fields of these frames are zero, and
  the field of every other 32-bit frame index, also of those at or past \<open>n_frames\<close>, holds
  the bits it held before; no byte outside the pool's bitmap changes and nothing is
  written to the console. If frame \<open>k\<close> is not a head of sequence, the only effect is the
  diagnostic line: memory and registry are unchanged.
\<close>

theorem release_frames_effect:
  assumes "registry s ps" and "a \<in> set ps"
    and "\<forall>q\<in>set ps. q \<noteq> a \<longrightarrow> frames_of (pools s q) \<inter> frames_of (pools s a) = {}"
    and "unat (base_frame_no (pools s a)) + unat (nframes (pools s a)) \<le> 4294967296"
    and "unat k < unat (nframes (pools s a))"
  shows "\<exists>s'. release_frames (k + base_frame_no (pools s a)) s = Some s' \<and>
     head s' = head s \<and> pools s' = pools s \<and>
     (get_state (pools s a) (mem s) k = HoS \<longrightarrow>
        (\<forall>j. get_state (pools s a) (mem s') j =
               (if j = k \<or> in_run (pools s a) (mem s) (unat k) (unat j) then Free
                else get_state (pools s a) (mem s) j)) \<and>
        (\<forall>j. current_state (pools s a) (mem s') j =
               (if j = k \<or> in_run (pools s a) (mem s) (unat k) (unat j) then 0
                else current_state (pools s a) (mem s) j)) \<and>
        (\<forall>x. x \<notin> bitmap_bytes (pools s a) \<longrightarrow> mem s' x = mem s x) \<and>
        console s' = console s) \<and>
     (get_state (pools s a) (mem s) k \<noteq> HoS \<longrightarrow>
        s' = s\<lparr>console := console s @ [not_a_head]\<rparr>)"
proof -
  let ?p = "pools s a"
  let ?f = "k + base_frame_no ?p"
  let ?s' = "release_in_pool ?p k s"
  have "unat k + unat (base_frame_no ?p) < 4294967296" using assms(4,5) by arith
  then have uf: "unat ?f = unat k + unat (base_frame_no ?p)" by (rule unat_plus)
  then have fr: "unat ?f \<in> frames_of ?p"
    using assms(5) by (simp add: frames_of_def)
  have "route (pools s) ?f ps = Some a"
    using assms(1,2,3) fr assms(4) by (rule registry_route_owner)
  from release_frames_routed[OF assms(1) this]
  have e: "release_frames ?f s = Some ?s'" by simp
  have el: "mem ?s' x = mem s x" if "x \<notin> bitmap_bytes ?p" for x
    using assms(5) that by (rule release_in_pool_elsewhere)
  show ?thesis
  proof (cases "get_state ?p (mem s) k = HoS")
    case True
    note release_in_pool_states[OF assms(5) True] release_in_pool_fields[OF assms(5) True]
      release_in_pool_console[OF True]
    with e el True show ?thesis
      by (simp add: release_in_pool_registry)
  next
    case False
    from release_in_pool_other[OF False] e False show ?thesis by simp
  qed
qed

theorem release_frames_effect_witness:
  "registry run_kernel [1, 0] \<and> (0::nat) \<in> set [1, 0] \<and>
   frames_of (pools run_kernel 1) \<inter> frames_of (pools run_kernel 0) = {} \<and>
   unat (base_frame_no (pools run_kernel 0)) + unat (nframes (pools run_kernel 0))
     \<le> 4294967296 \<and>
   unat (1::u32) < unat (nframes (pools run_kernel 0)) \<and>
   get_state (pools run_kernel 0) (mem run_kernel) 1 = HoS \<and>
   (\<exists>s'. release_frames (1 + base_frame_no (pools run_kernel 0)) run_kernel = Some s' \<and>
      head s' = head run_kernel \<and> pools s' = pools run_kernel \<and>
      console s' = console run_kernel \<and>
      get_state (pools run_kernel 0) (mem s') 0 = Free \<and>
      get_state (pools run_kernel 0) (mem s') 1 = Free \<and>
      get_state (pools run_kernel 0) (mem s') 2 = Free \<and>
      get_state (pools run_kernel 0) (mem s') 3 = Free \<and>
      get_state (pools run_kernel 0) (mem s') 4 = HoS \<and>
      get_state (pools run_kernel 0) (mem s') 5 = Used \<and>
      current_state (pools run_kernel 0) (mem s') 1 = 0 \<and>
      current_state (pools run_kernel 0) (mem s') 8
        = current_state (pools run_kernel 0) (mem run_kernel) 8 \<and>
      mem s' 0x200000 = mem run_kernel 0x200000) \<and>
   unat (2::u32) < unat (nframes (pools run_kernel 0)) \<and>
   get_state (pools run_kernel 0) (mem run_kernel) 2 \<noteq> HoS \<and>
   release_frames (2 + base_frame_no (pools run_kernel 0)) run_kernel
     = Some (run_kernel\<lparr>console := console run_kernel @ [not_a_head]\<rparr>)"
proof -
  let ?p = "pools run_kernel 0"
  note f = run_kernel_fields
  note reg = run_kernel_registry
  have d: "frames_of (pools run_kernel 1) \<inter> frames_of ?p = {}"
    using f by (simp add: frames_of_def)
  then have d': "\<forall>q\<in>set [1, 0]. q \<noteq> 0 \<longrightarrow>
      frames_of (pools run_kernel q) \<inter> frames_of ?p = {}"
    by simp
  have a: "(0::nat) \<in> set [1, 0]" by simp
  have w: "unat (base_frame_no ?p) + unat (nframes ?p) \<le> 4294967296"
    by (simp add: f)
  have k1: "unat (1::u32) < unat (nframes ?p)" and k2: "unat (2::u32) < unat (nframes ?p)"
    by (simp_all add: f)
  have h1: "get_state ?p (mem run_kernel) 1 = HoS"
    and h2: "get_state ?p (mem run_kernel) 2 \<noteq> HoS"
    by (simp_all add: run_kernel_states)
  from release_frames_effect[OF reg a d' w k1] h1
  obtain s' where
    e: "release_frames (1 + base_frame_no ?p) run_kernel = Some s'"
    and hp: "head s' = head run_kernel" "pools s' = pools run_kernel"
    and g: "\<forall>j. get_state ?p (mem s') j =
               (if j = 1 \<or> in_run ?p (mem run_kernel) (unat (1::u32)) (unat j) then Free
                else get_state ?p (mem run_kernel) j)"
    and c: "\<forall>j. current_state ?p (mem s') j =
               (if j = 1 \<or> in_run ?p (mem run_kernel) (unat (1::u32)) (unat j) then 0
                else current_state ?p (mem run_kernel) j)"
    and el: "\<forall>x. x \<notin> bitmap_bytes ?p \<longrightarrow> mem s' x = mem run_kernel x"
    and co: "console s' = console run_kernel"
    by blast
  note r = run_kernel_runs
  have g0: "get_state ?p (mem s') 0 = Free"
    using spec[OF g, of 0] r(1) by (simp add: run_kernel_states)
  have g1: "get_state ?p (mem s') 1 = Free"
    using spec[OF g, of 1] by simp
  have g2: "get_state ?p (mem s') 2 = Free"
    using spec[OF g, of 2] r(2) by simp
  have g3: "get_state ?p (mem s') 3 = Free"
    using spec[OF g, of 3] r(3) by simp
  have g4: "get_state ?p (mem s') 4 = HoS"
    using spec[OF g, of 4] r(4) by (simp add: run_kernel_states)
  have g5: "get_state ?p (mem s') 5 = Used"
    using spec[OF g, of 5] r(5) by (simp add: run_kernel_states)
  have c1: "current_state ?p (mem s') 1 = 0"
    using spec[OF c, of 1] by simp
  have c8: "current_state ?p (mem s') 8 = current_state ?p (mem run_kernel) 8"
    using spec[OF c, of 8] r(6) by simp
  have m0: "mem s' 0x200000 = mem run_kernel 0x200000"
    using spec[OF el, of "0x200000"] run_kernel_outside by simp
  from release_frames_effect[OF reg a d' w k2] h2
  have n: "release_frames (2 + base_frame_no ?p) run_kernel
     = Some (run_kernel\<lparr>console := console run_kernel @ [not_a_head]\<rparr>)"
    by blast
  from e hp co g0 g1 g2 g3 g4 g5 c1 c8 m0
  have "\<exists>s'. release_frames (1 + base_frame_no ?p) run_kernel = Some s' \<and>
      head s' = head run_kernel \<and> pools s' = pools run_kernel \<and>
      console s' = console run_kernel \<and>
      get_state ?p (mem s') 0 = Free \<and>
      get_state ?p (mem s') 1 = Free \<and>
      get_state ?p (mem s') 2 = Free \<and>
      get_state ?p (mem s') 3 = Free \<and>
      get_state ?p (mem s') 4 = HoS \<and>
      get_state ?p (mem s') 5 = Used \<and>
      current_state ?p (mem s') 1 = 0 \<and>
      current_state ?p (mem s') 8 = current_state ?p (mem run_kernel) 8 \<and>
      mem s' 0x200000 = mem run_kernel 0x200000"
    by blast
  with reg a d w k1 h1 k2 h2 n show ?thesis by blast
qed

text \<open>
  The claim as the spec states it, for every pool, fails for a pool whose range overlaps
  that of a pool earlier in the registry. Three frames allocated from the later pool
  start with a head of sequence at its frame 0; \<open>release_frames\<close> of the frame number that
  \<open>get_frames\<close> returned is handed to the earlier pool, where the frame is not a head of
  sequence, so the diagnostic is written and the run stays allocated.
\<close>

theorem release_frames_effect_counterexample:
  "registry overlap_allocated [0, 1] \<and>
   get_frames (pools overlap_kernel 1) (mem overlap_kernel) 3
     = Some (1028, mem overlap_allocated) \<and>
   base_frame_no (pools overlap_allocated 1) = 1028 \<and>
   unat (0::u32) < unat (nframes (pools overlap_allocated 1)) \<and>
   get_state (pools overlap_allocated 1) (mem overlap_allocated) 0 = HoS \<and>
   release_frames (0 + base_frame_no (pools overlap_allocated 1)) overlap_allocated
     = Some overlap_returned \<and>
   get_state (pools overlap_allocated 1) (mem overlap_returned) 0 = HoS \<and>
   get_state (pools overlap_allocated 1) (mem overlap_returned) 1 = Used \<and>
   console overlap_returned = console overlap_allocated @ [not_a_head]"
proof -
  have a: "registry overlap_allocated [0, 1]" by code_simp
  have "returns (get_frames (pools overlap_kernel 1) (mem overlap_kernel) 3)"
    by code_simp
  from returns_the[OF this]
  have "get_frames (pools overlap_kernel 1) (mem overlap_kernel) 3
     = Some (fst (the (get_frames (pools overlap_kernel 1) (mem overlap_kernel) 3)),
             mem overlap_allocated)"
    by (simp add: overlap_allocated_def)
  moreover have "fst (the (get_frames (pools overlap_kernel 1) (mem overlap_kernel) 3)) = 1028"
    by code_simp
  ultimately have b: "get_frames (pools overlap_kernel 1) (mem overlap_kernel) 3
     = Some (1028, mem overlap_allocated)"
    by simp
  have c: "base_frame_no (pools overlap_allocated 1) = 1028"
    "unat (0::u32) < unat (nframes (pools overlap_allocated 1))"
    "get_state (pools overlap_allocated 1) (mem overlap_allocated) 0 = HoS"
    by code_simp+
  have d: "release_frames (0 + base_frame_no (pools overlap_allocated 1)) overlap_allocated
     = Some overlap_returned"
    unfolding overlap_returned_def by (rule returns_the) code_simp
  have e: "get_state (pools overlap_allocated 1) (mem overlap_returned) 0 = HoS"
    "get_state (pools overlap_allocated 1) (mem overlap_returned) 1 = Used"
    "console overlap_returned = console overlap_allocated @ [not_a_head]"
    by code_simp+
  from a b c d e show ?thesis by blast
qed

section \<open>The self-reserved frame\<close>

lemma get_frames_keeps_head:
  assumes v: "valid_pool p" and h: "frame_state p m 0 = HoS"
    and g: "get_frames p m n = Some (r, m')"
  shows "frame_state p m' 0 = HoS"
proof (cases "1 \<le> unat n")
  case False
  then have "n = 0" by (simp add: unat_eq_zero not_le)
  moreover have "\<not> (0 + 0 - 1 < nframes p)"
    by (simp add: not_less)
  ultimately have "get_frames p m n = Some (0, m)"
    unfolding get_frames_def by (subst get_frames_loop.simps) simp
  with g h show ?thesis by simp
next
  case True
  note res = get_frames_result[OF v True, of m]
  show ?thesis
  proof (cases "\<exists>s. free_window p m s (unat n)")
    case False
    with res g h show ?thesis by simp
  next
    case ex: True
    define L where "L = (LEAST s. free_window p m s (unat n))"
    from ex have w: "free_window p m L (unat n)" unfolding L_def by (metis LeastI)
    from w have ln: "L + unat n \<le> unat (nframes p)"
      and al: "\<forall>k. k < unat n \<longrightarrow> frame_state p m (L + k) = Free"
      by (simp_all add: free_window_iff)
    from True have "0 < unat n" by simp
    with al have "frame_state p m (L + 0) = Free" by blast
    then have fl: "frame_state p m L = Free" by simp
    have L0: "L \<noteq> 0"
    proof
      assume "L = 0"
      with fl h show False by simp
    qed
    from ln valid_pool_bounds(2)[OF v] have "L < 4294967296" by arith
    then have uL: "unat (of_nat L :: u32) = L" by (rule unat_of_nat32)
    from res ex g have m': "m' = mark_inaccessible p m (of_nat L) n" by (simp add: L_def)
    have "unat (of_nat L :: u32) + unat n \<le> 4294967296"
      using uL ln valid_pool_bounds(2)[OF v] by simp
    from mark_inaccessible_state[OF this, of 0 p m] L0 h show ?thesis
      by (simp add: m' uL)
  qed
qed

lemma mark_keeps_head:
  assumes v: "valid_pool p" and h: "frame_state p m 0 = HoS"
    and r: "unat b + unat n \<le> unat (nframes p)"
  shows "frame_state p (mark_inaccessible p m b n) 0 = HoS"
proof -
  have "unat b + unat n \<le> 4294967296" using r valid_pool_bounds(2)[OF v] by arith
  from mark_inaccessible_state[OF this, of 0 p m] h show ?thesis by simp
qed

lemma release_keeps_head:
  assumes v: "valid_pool p" and h: "frame_state p (mem s) 0 = HoS"
    and k: "0 < k" "k < unat (nframes p)"
  shows "frame_state p (mem (release_in_pool p (of_nat k) s)) 0 = HoS"
proof -
  have "\<not> in_run p (mem s) k 0" by (simp add: in_run_iff)
  with release_in_pool_frames[OF k(2), of s] k h show ?thesis
    by (cases "frame_state p (mem s) k = HoS") auto
qed

lemma pool_op_invariant:
  assumes reg: "registry s ps" and a: "a \<in> set ps"
    and dj: "\<forall>q\<in>set ps. q \<noteq> a \<longrightarrow> frames_of (pools s q) \<inter> frames_of (pools s a) = {}"
    and nw: "unat (base_frame_no (pools s a)) + unat (nframes (pools s a)) \<le> 4294967296"
    and h: "frame_state (pools s a) (mem s) 0 = HoS"
    and op: "pool_op a s s'"
  shows "head s' = head s \<and> pools s' = pools s \<and> frame_state (pools s a) (mem s') 0 = HoS"
  using op
proof (cases rule: pool_op.cases)
  case (get n r m')
  from reg a have v: "valid_pool (pools s a)" by (simp add: registry_def list_all_iff)
  from get_frames_keeps_head[OF v h get(2)] get(1) show ?thesis by simp
next
  case (mark b n)
  from reg a have v: "valid_pool (pools s a)" by (simp add: registry_def list_all_iff)
  from mark_keeps_head[OF v h mark(2)] mark(1) show ?thesis by simp
next
  case (release f)
  let ?p = "pools s a"
  from reg a have v: "valid_pool ?p" by (simp add: registry_def list_all_iff)
  from registry_route_owner[OF reg a dj release(1) nw]
  have "route (pools s) f ps = Some a" .
  from release_frames_routed[OF reg this] release(3)
  have s': "s' = release_in_pool ?p (f - base_frame_no ?p) s" by simp
  from release(1) have F: "unat (base_frame_no ?p) \<le> unat f"
    "unat f < unat (base_frame_no ?p) + unat (nframes ?p)"
    by (simp_all add: frames_of_def)
  then have le: "base_frame_no ?p \<le> f" by (simp add: word_le_nat_alt)
  then have u: "unat (f - base_frame_no ?p) = unat f - unat (base_frame_no ?p)"
    by (simp add: unat_sub)
  from release(2) have "unat f \<noteq> unat (base_frame_no ?p)" by (simp add: word_unat_eq_iff)
  with F u have k: "0 < unat (f - base_frame_no ?p)"
    "unat (f - base_frame_no ?p) < unat (nframes ?p)"
    by arith+
  from release_keeps_head[OF v h k]
  have "frame_state ?p (mem (release_in_pool ?p (f - base_frame_no ?p) s)) 0 = HoS"
    by simp
  then show ?thesis by (simp add: s' release_in_pool_registry)
next
  case elsewhere
  from reg a have v: "valid_pool (pools s a)" by (simp add: registry_def list_all_iff)
  have "frame_state (pools s a) (mem s') 0 = frame_state (pools s a) (mem s) 0"
    by (rule frame_state_bytes) (use elsewhere(3) valid_pool_bounds(1)[OF v] in auto)
  with h elsewhere show ?thesis by simp
qed

lemma pool_ops_invariant:
  assumes "(pool_op a)\<^sup>*\<^sup>* s1 s"
    and "registry s1 ps" "a \<in> set ps"
    and "\<forall>q\<in>set ps. q \<noteq> a \<longrightarrow> frames_of (pools s1 q) \<inter> frames_of (pools s1 a) = {}"
    and "unat (base_frame_no (pools s1 a)) + unat (nframes (pools s1 a)) \<le> 4294967296"
    and "frame_state (pools s1 a) (mem s1) 0 = HoS"
  shows "head s = head s1 \<and> pools s = pools s1 \<and> frame_state (pools s1 a) (mem s) 0 = HoS"
  using assms
proof (induction rule: rtranclp_induct)
  case base
  then show ?case by simp
next
  case (step y z)
  then have i: "head y = head s1" "pools y = pools s1"
    "frame_state (pools s1 a) (mem y) 0 = HoS"
    by simp_all
  have r: "registry y ps" using step.prems(1) i by (simp add: registry_def)
  from pool_op_invariant[OF r step.prems(2) _ _ _ step.hyps(2)] step.prems(3,4) i
  show ?case by simp
qed

text \<open>
  C3 (amended). For a pool constructed with \<open>info_frame_no = 0\<close>, whose range overlaps no
  other registered pool's range and does not run past \<open>2^32\<close>: frame 0 reads \<open>HoS\<close> in
  every state reached from the end of construction by the pool's \<open>get_frames(n)\<close>, its
  \<open>mark_inaccessible(b, n)\<close> with \<open>b + n \<le> n_frames\<close>, \<open>release_frames(f)\<close> for a frame
  \<open>f\<close> of the pool other than \<open>base_frame_no\<close>, and any step that leaves the registry and
  the pool's bitmap bytes alone.
\<close>

theorem self_reserved_frame:
  assumes "ContFramePool_ctor a b n 0 s0 = Some s1"
    and "registry s1 ps" and "a \<in> set ps"
    and "\<forall>q\<in>set ps. q \<noteq> a \<longrightarrow> frames_of (pools s1 q) \<inter> frames_of (pools s1 a) = {}"
    and "unat b + unat n \<le> 4294967296"
    and "(pool_op a)\<^sup>*\<^sup>* s1 s"
  shows "frame_state (pools s a) (mem s) 0 = HoS"
proof -
  note r = ctor_result[OF assms(1)]
  have "1 \<le> unat n" using valid_pool_bounds(1)[OF r(6)] r(2) by simp
  then have h: "frame_state (pools s1 a) (mem s1) 0 = HoS"
    using ctor_frame_state[OF assms(1), of 0] by simp
  have "unat (base_frame_no (pools s1 a)) + unat (nframes (pools s1 a)) \<le> 4294967296"
    using assms(5) r(1,2) by simp
  from pool_ops_invariant[OF assms(6,2,3,4) this h] show ?thesis by simp
qed

lemma registry_self_backed: "registry self_backed_kernel [0]"
  by code_simp

theorem self_reserved_frame_witness:
  "ContFramePool_ctor 0 512 8 0 boot_kernel = Some self_backed_kernel \<and>
   registry self_backed_kernel [0] \<and> (0::nat) \<in> set [0] \<and>
   unat (512::u32) + unat (8::u32) \<le> 4294967296 \<and>
   (pool_op 0)\<^sup>*\<^sup>* self_backed_kernel self_released \<and>
   frame_state (pools self_released 0) (mem self_released) 0 = HoS"
proof -
  have c: "ContFramePool_ctor 0 512 8 0 boot_kernel = Some self_backed_kernel"
    unfolding self_backed_kernel_def by (rule the_ctor_boot) simp_all
  have a: "(0::nat) \<in> set [0]" by simp
  have d: "\<forall>q\<in>set [0::nat]. q \<noteq> 0 \<longrightarrow>
     frames_of (pools self_backed_kernel q) \<inter> frames_of (pools self_backed_kernel 0) = {}"
    by simp
  have w: "unat (512::u32) + unat (8::u32) \<le> 4294967296" by simp
  have "unat (2::u32) + unat (3::u32) \<le> unat (nframes (pools self_backed_kernel 0))"
    using ctor_result(2)[OF c] by simp
  from pool_op.mark[of 2 3 self_backed_kernel 0, OF this]
  have s1: "pool_op 0 self_backed_kernel self_marked" by (simp add: self_marked_def)
  have "unat (514::u32) \<in> frames_of (pools self_marked 0)"
    "(514::u32) \<noteq> base_frame_no (pools self_marked 0)"
    using ctor_result(1,2)[OF c] by (simp_all add: self_marked_def frames_of_def)
  moreover have "release_frames 514 self_marked = Some self_released"
    unfolding self_released_def by (rule returns_the) code_simp
  ultimately have s2: "pool_op 0 self_marked self_released" by (rule pool_op.release)
  from s1 s2 have p: "(pool_op 0)\<^sup>*\<^sup>* self_backed_kernel self_released" by auto
  from self_reserved_frame[OF c registry_self_backed a d w p] c registry_self_backed a w p
  show ?thesis by blast
qed

text \<open>
  The claim as the spec states it fails: \<open>release_frames\<close> of the pool's first frame
  finds frame 0 marked as a head of sequence and frees it like any other run.
\<close>

theorem self_reserved_frame_counterexample:
  "ContFramePool_ctor 0 512 8 0 boot_kernel = Some self_backed_kernel \<and>
   frame_state (pools self_backed_kernel 0) (mem self_backed_kernel) 0 = HoS \<and>
   release_frames 512 self_backed_kernel = Some self_freed \<and>
   frame_state (pools self_freed 0) (mem self_freed) 0 = Free"
proof -
  have c: "ContFramePool_ctor 0 512 8 0 boot_kernel = Some self_backed_kernel"
    unfolding self_backed_kernel_def by (rule the_ctor_boot) simp_all
  have r: "release_frames 512 self_backed_kernel = Some self_freed"
    unfolding self_freed_def by (rule returns_the) code_simp
  have f: "frame_state (pools self_backed_kernel 0) (mem self_backed_kernel) 0 = HoS"
    "frame_state (pools self_freed 0) (mem self_freed) 0 = Free"
    by code_simp+
  from c r f show ?thesis by blast
qed

end
